theory Spec2Isabelle
  imports Main "HOL-Library.Sublist"
begin

section \<open>GoodLinks to Instapaper sync: the program\<close>

text \<open>
  A shallow embedding of \<^verbatim>\<open>goodlinks2insta.py\<close>. Everything the script does to the
  outside is a field of the record \<open>world\<close>: the ordered trace of HTTP posts, sleeps,
  writes of the state file and per-item results, the content of the state file, and
  whether the GoodLinks application is running. What the outside answers is the record
  \<open>env\<close>. Exceptions are values of the type \<open>error\<close>, returned as \<open>Inl\<close>.
  Log lines are not modelled, with two exceptions through which the counters and the
  per-item results of a run become visible: the per-item line \<^verbatim>\<open>... ok\<close> /
  \<^verbatim>\<open>... FAILED\<close> is the trace event \<open>Item\<close>, and the closing line of each return
  path of \<^verbatim>\<open>cmd_sync\<close> is the value of type \<open>outcome\<close> it returns.
\<close>

subsection \<open>Data\<close>

text \<open>The dict \<^verbatim>\<open>{"id": .., "url": .., "title": ..}\<close> built by \<^verbatim>\<open>get_goodlinks\<close>.\<close>

record link =
  link_id :: string
  link_url :: string
  link_title :: string

text \<open>One call of \<^verbatim>\<open>requests.post\<close>: the Basic-Auth pair and the two form fields.\<close>

record request =
  req_username :: string
  req_password :: string
  req_url :: string
  req_title :: string

text \<open>
  What \<^verbatim>\<open>requests.post\<close> does: it returns a response with a status code, or raises
  \<^verbatim>\<open>Timeout\<close>, \<^verbatim>\<open>ConnectionError\<close> or another \<^verbatim>\<open>RequestException\<close>.
\<close>

datatype response = Status int | Timeout | ConnectionError | OtherRequestException

datatype event =
    Post request response    \<comment> \<open>one \<^verbatim>\<open>requests.post\<close> and what came back\<close>
  | Sleep int                \<comment> \<open>\<^verbatim>\<open>time.sleep\<close>, in seconds\<close>
  | Save "string set"        \<comment> \<open>one \<^verbatim>\<open>save_synced_ids\<close>\<close>
  | Item link bool           \<comment> \<open>the per-item log line: \<open>True\<close> is ok, \<open>False\<close> is FAILED\<close>

text \<open>
  The state file \<^verbatim>\<open>synced.json\<close>: absent, a JSON array of ids (read back as a set), or
  content on which \<^verbatim>\<open>set(json.loads(..))\<close> raises.
\<close>

datatype file_content = Absent | Json_ids "string set" | Unparseable

record world =
  trace :: "event list"
  state_file :: file_content
  app_running :: bool

datatype error =
    ConfigNotFound           \<comment> \<open>\<^verbatim>\<open>FileNotFoundError\<close> of \<^verbatim>\<open>load_config\<close>\<close>
  | LaunchFailed             \<comment> \<open>\<^verbatim>\<open>CalledProcessError\<close> of \<^verbatim>\<open>open -a GoodLinks\<close>\<close>
  | CannotConnect            \<comment> \<open>\<^verbatim>\<open>RuntimeError\<close>: cannot connect to GoodLinks\<close>
  | AppleScriptFailed string \<comment> \<open>\<^verbatim>\<open>RuntimeError\<close>: AppleScript failed, with stderr\<close>
  | StateUnreadable          \<comment> \<open>the exception of \<^verbatim>\<open>set(json.loads(..))\<close>\<close>
  | AuthenticationFailed     \<comment> \<open>\<^verbatim>\<open>RuntimeError\<close>: Instapaper answered 403\<close>

record osa_result =
  returncode :: int
  stdout :: string
  stderr :: string

record config =
  username :: string
  password :: string
  launch_goodlinks_flag :: bool

record args =
  dry_run :: bool
  quiet :: bool
  max_retries :: int

text \<open>
  The answers of the outside world during one run. The Instapaper server sees the
  whole trace so far, so its answer may depend on everything that happened before.
\<close>

record env =
  config_file :: "config option"
  srv :: "event list \<Rightarrow> request \<Rightarrow> response"
  osa :: osa_result
  open_ok :: bool
  starts :: bool
  quit_ok :: bool

text \<open>The three local variables the loop of \<^verbatim>\<open>cmd_sync\<close> updates.\<close>

record loop_state =
  synced :: "string set"
  new_count :: nat
  failed_count :: nat

text \<open>
  The return paths of \<^verbatim>\<open>cmd_sync\<close>, each with what its closing log line reports:
  the titles (cut to 70 characters) a dry run lists, and the two counters of
  \<^verbatim>\<open>Done: .. synced, .. failed\<close>.
\<close>

datatype outcome =
    Not_running
  | Would_sync "string list"
  | Nothing_to_sync
  | Done nat nat

subsection \<open>GoodLinks: lifecycle and enumeration\<close>

definition is_goodlinks_running :: "world \<Rightarrow> bool" where
  "is_goodlinks_running w = app_running w"

definition launch_goodlinks :: "env \<Rightarrow> world \<Rightarrow> (error + unit) \<times> world" where
  "launch_goodlinks E w =
     (if open_ok E
      then (Inr (), w\<lparr>app_running := starts E, trace := trace w @ [Sleep 2]\<rparr>)
      else (Inl LaunchFailed, w))"

definition quit_goodlinks :: "env \<Rightarrow> world \<Rightarrow> world" where
  "quit_goodlinks E w = (if quit_ok E then w\<lparr>app_running := False\<rparr> else w)"

definition ensure_goodlinks_running :: "env \<Rightarrow> bool \<Rightarrow> world \<Rightarrow> (error + bool) \<times> world" where
  "ensure_goodlinks_running E launch_if_needed w =
     (if is_goodlinks_running w then (Inr True, w)
      else if launch_if_needed then
        (case launch_goodlinks E w of
           (Inl e, w1) \<Rightarrow> (Inl e, w1)
         | (Inr _, w1) \<Rightarrow> (Inr (is_goodlinks_running w1), w1))
      else (Inr False, w))"

text \<open>
  The characters below 256 that Python's \<^verbatim>\<open>str.strip()\<close> removes. A \<open>char\<close> is
  eight bits wide, so the output of the AppleScript is modelled for code points below
  256 only.
\<close>

definition is_space :: "char \<Rightarrow> bool" where
  "is_space c = (of_char c \<in> {9, 10, 11, 12, 13, 28, 29, 30, 31, 32, 133, 160 :: nat})"

definition strip :: "string \<Rightarrow> string" where
  "strip s = rev (dropWhile is_space (rev (dropWhile is_space s)))"

text \<open>\<^verbatim>\<open>s.split(sep)\<close> for a one-character separator: never empty, \<^verbatim>\<open>"".split(sep) == [""]\<close>.\<close>

fun split_str :: "char \<Rightarrow> string \<Rightarrow> string list" where
  "split_str sep [] = [[]]"
| "split_str sep (c # cs) =
     (if c = sep then [] # split_str sep cs
      else (case split_str sep cs of
              p # ps \<Rightarrow> (c # p) # ps
            | [] \<Rightarrow> [[c]]))"

text \<open>\<^verbatim>\<open>p in s\<close> on strings.\<close>

fun substring_in :: "string \<Rightarrow> string \<Rightarrow> bool" where
  "substring_in p [] = (p = [])"
| "substring_in p (c # cs) = (take (length p) (c # cs) = p \<or> substring_in p cs)"

text \<open>
  The body of \<^verbatim>\<open>for line in ..\<close>: the links one line appends, none or one. The reads
  \<^verbatim>\<open>parts[0]\<close>, \<^verbatim>\<open>parts[1]\<close>, \<^verbatim>\<open>parts[2]\<close> are guarded by \<^verbatim>\<open>len(parts) >= 3\<close>.
\<close>

definition parse_line :: "string \<Rightarrow> link list" where
  "parse_line line =
     (if line \<noteq> [] then
        (let parts = split_str (CHR 0x09) line in
         if length parts \<ge> 3
         then [\<lparr>link_id = parts ! 0, link_url = parts ! 1, link_title = parts ! 2\<rparr>]
         else [])
      else [])"

fun parse_lines :: "string list \<Rightarrow> link list" where
  "parse_lines [] = []"
| "parse_lines (line # lines) = parse_line line @ parse_lines lines"

definition get_goodlinks :: "osa_result \<Rightarrow> error + link list" where
  "get_goodlinks r =
     (if returncode r \<noteq> 0 then
        (if substring_in ''No such process'' (stderr r) \<or> substring_in ''not running'' (stderr r)
         then Inl CannotConnect
         else Inl (AppleScriptFailed (stderr r)))
      else Inr (parse_lines (split_str (CHR 0x0A) (strip (stdout r)))))"

subsection \<open>The state file\<close>

definition load_synced_ids :: "world \<Rightarrow> error + string set" where
  "load_synced_ids w =
     (case state_file w of
        Absent \<Rightarrow> Inr {}
      | Json_ids ids \<Rightarrow> Inr ids
      | Unparseable \<Rightarrow> Inl StateUnreadable)"

definition save_synced_ids :: "string set \<Rightarrow> world \<Rightarrow> world" where
  "save_synced_ids ids w = w\<lparr>state_file := Json_ids ids, trace := trace w @ [Save ids]\<rparr>"

definition load_config :: "env \<Rightarrow> error + config" where
  "load_config E = (case config_file E of None \<Rightarrow> Inl ConfigNotFound | Some c \<Rightarrow> Inr c)"

subsection \<open>The publisher\<close>

text \<open>
  The body of \<^verbatim>\<open>for attempt in range(max_retries + 1)\<close>, by recursion on the values of
  the range that are still to come; \<^verbatim>\<open>continue\<close> is the recursive call, the empty list
  is the \<^verbatim>\<open>return False\<close> after the loop. \<open>True\<close> is the source's \<^verbatim>\<open>True\<close>
  (the spec's Success), \<open>False\<close> its \<^verbatim>\<open>False\<close> (PermanentFailure).
\<close>

fun attempts :: "(event list \<Rightarrow> request \<Rightarrow> response) \<Rightarrow> request \<Rightarrow> int \<Rightarrow> int list \<Rightarrow> world
    \<Rightarrow> (error + bool) \<times> world" where
  "attempts server rq maxr [] w = (Inr False, w)"
| "attempts server rq maxr (attempt # rest) w =
     (let resp = server (trace w) rq;
          w1 = w\<lparr>trace := trace w @ [Post rq resp]\<rparr>;
          retry = (if attempt < maxr
                   then attempts server rq maxr rest
                          (w1\<lparr>trace := trace w1 @ [Sleep (2 ^ nat attempt)]\<rparr>)
                   else (Inr False, w1))
      in case resp of
           Status status_code \<Rightarrow>
             if status_code = 201 then (Inr True, w1)
             else if status_code = 403 then (Inl AuthenticationFailed, w1)
             else if status_code = 400 then (Inr False, w1)
             else if status_code \<ge> 500 then retry
             else (Inr False, w1)
         | Timeout \<Rightarrow> retry
         | ConnectionError \<Rightarrow> retry
         | OtherRequestException \<Rightarrow> (Inr False, w1))"

definition add_to_instapaper ::
  "(event list \<Rightarrow> request \<Rightarrow> response) \<Rightarrow> string \<Rightarrow> string \<Rightarrow> string \<Rightarrow> string \<Rightarrow> int \<Rightarrow> world
    \<Rightarrow> (error + bool) \<times> world" where
  "add_to_instapaper server url title user pass maxr w =
     attempts server
       \<lparr>req_username = user, req_password = pass, req_url = url, req_title = title\<rparr>
       maxr [0..maxr] w"

subsection \<open>The orchestrator\<close>

text \<open>\<^verbatim>\<open>[l for l in links if l["id"] not in synced]\<close>\<close>

definition to_sync :: "link list \<Rightarrow> string set \<Rightarrow> link list" where
  "to_sync links ids = [l \<leftarrow> links. link_id l \<notin> ids]"

text \<open>
  \<^verbatim>\<open>for i, link in enumerate(to_sync, 1)\<close>: the index, the items still to come, the
  three local variables. An exception of the publisher leaves the loop at once.
\<close>

fun sync_loop :: "env \<Rightarrow> config \<Rightarrow> args \<Rightarrow> nat \<Rightarrow> link list \<Rightarrow> loop_state \<Rightarrow> world
    \<Rightarrow> (error + loop_state) \<times> world" where
  "sync_loop E c a i [] st w = (Inr st, w)"
| "sync_loop E c a i (l # ls) st w =
     (case add_to_instapaper (srv E) (link_url l) (link_title l) (username c) (password c)
             (max_retries a) w of
        (Inl e, w1) \<Rightarrow> (Inl e, w1)
      | (Inr ok, w1) \<Rightarrow>
          (let st1 = (if ok
                      then st\<lparr>synced := insert (link_id l) (synced st),
                              new_count := new_count st + 1\<rparr>
                      else st\<lparr>failed_count := failed_count st + 1\<rparr>);
               w2 = w1\<lparr>trace := trace w1 @ [Item l ok]\<rparr>;
               w3 = (if i mod 10 = 0 then save_synced_ids (synced st1) w2 else w2)
           in sync_loop E c a (i + 1) ls st1 w3))"

text \<open>The body of the \<^verbatim>\<open>try\<close> block of \<^verbatim>\<open>cmd_sync\<close>.\<close>

definition sync_links :: "env \<Rightarrow> config \<Rightarrow> args \<Rightarrow> world \<Rightarrow> (error + outcome) \<times> world" where
  "sync_links E c a w =
     (case get_goodlinks (osa E) of
        Inl e \<Rightarrow> (Inl e, w)
      | Inr links \<Rightarrow>
          (case load_synced_ids w of
             Inl e \<Rightarrow> (Inl e, w)
           | Inr ids \<Rightarrow>
               (let pending = to_sync links ids in
                if dry_run a then (Inr (Would_sync (map (\<lambda>l. take 70 (link_title l)) pending)), w)
                else if pending = [] then (Inr Nothing_to_sync, w)
                else
                  (case sync_loop E c a 1 pending
                          \<lparr>synced = ids, new_count = 0, failed_count = 0\<rparr> w of
                     (Inl e, w1) \<Rightarrow> (Inl e, w1)
                   | (Inr st, w1) \<Rightarrow>
                       (Inr (Done (new_count st) (failed_count st)),
                        save_synced_ids (synced st) w1)))))"

text \<open>
  \<^verbatim>\<open>cmd_sync\<close>: configuration, the lifecycle guard, the \<^verbatim>\<open>try\<close> block, and the
  \<^verbatim>\<open>finally\<close> clause that quits GoodLinks when this run started it.
\<close>

definition cmd_sync :: "env \<Rightarrow> args \<Rightarrow> world \<Rightarrow> (error + outcome) \<times> world" where
  "cmd_sync E a w =
     (case load_config E of
        Inl e \<Rightarrow> (Inl e, w)
      | Inr c \<Rightarrow>
          (let was_running = is_goodlinks_running w in
           case ensure_goodlinks_running E (launch_goodlinks_flag c) w of
             (Inl e, w1) \<Rightarrow> (Inl e, w1)
           | (Inr False, w1) \<Rightarrow> (Inr Not_running, w1)
           | (Inr True, w1) \<Rightarrow>
               (case sync_links E c a w1 of
                  (r, w2) \<Rightarrow> (r, if \<not> was_running then quit_goodlinks E w2 else w2))))"

subsection \<open>Reading a trace\<close>

fun posts :: "event list \<Rightarrow> (request \<times> response) list" where
  "posts [] = []"
| "posts (Post rq rs # es) = (rq, rs) # posts es"
| "posts (_ # es) = posts es"

fun sleeps :: "event list \<Rightarrow> int list" where
  "sleeps [] = []"
| "sleeps (Sleep n # es) = n # sleeps es"
| "sleeps (_ # es) = sleeps es"

fun saves :: "event list \<Rightarrow> string set list" where
  "saves [] = []"
| "saves (Save s # es) = s # saves es"
| "saves (_ # es) = saves es"

fun items :: "event list \<Rightarrow> (link \<times> bool) list" where
  "items [] = []"
| "items (Item l ok # es) = (l, ok) # items es"
| "items (_ # es) = items es"

text \<open>What a run appended to the trace it started with.\<close>

definition new_events :: "world \<Rightarrow> world \<Rightarrow> event list" where
  "new_events w w' = drop (length (trace w)) (trace w')"

text \<open>A trace of the publisher alone: posts and sleeps, nothing else.\<close>

fun net_only :: "event list \<Rightarrow> bool" where
  "net_only [] = True"
| "net_only (Post _ _ # es) = net_only es"
| "net_only (Sleep _ # es) = net_only es"
| "net_only (_ # es) = False"

text \<open>
  The writes of the state file, each with the number of items processed before it
  (counted from \<open>n\<close>): \<open>(10, S)\<close> is a write of \<open>S\<close> made after the tenth item
  and before the eleventh.
\<close>

fun flushed_after :: "nat \<Rightarrow> event list \<Rightarrow> (nat \<times> string set) list" where
  "flushed_after n [] = []"
| "flushed_after n (Item l ok # es) = flushed_after (Suc n) es"
| "flushed_after n (Save s # es) = (n, s) # flushed_after n es"
| "flushed_after n (_ # es) = flushed_after n es"

text \<open>The request \<^verbatim>\<open>cmd_sync\<close> makes \<^verbatim>\<open>add_to_instapaper\<close> send for a link.\<close>

definition request_for :: "config \<Rightarrow> link \<Rightarrow> request" where
  "request_for c l = \<lparr>req_username = username c, req_password = password c,
                     req_url = link_url l, req_title = link_title l\<rparr>"

text \<open>The ids of the items reported ok.\<close>

definition ok_ids :: "(link \<times> bool) list \<Rightarrow> string set" where
  "ok_ids rs = link_id ` fst ` set (filter snd rs)"

text \<open>
  The periodic writes a loop makes that starts after \<open>m\<close> items with the set \<open>S\<close>
  and reports the results \<open>rs\<close>: one after each item whose number is a multiple of ten,
  holding \<open>S\<close> and the ids reported ok so far.
\<close>

definition flush_points :: "nat \<Rightarrow> string set \<Rightarrow> (link \<times> bool) list \<Rightarrow> (nat \<times> string set) list" where
  "flush_points m S rs =
     map (\<lambda>j. (j, S \<union> ok_ids (take (j - m) rs))) [j \<leftarrow> [Suc m..<Suc (m + length rs)]. j mod 10 = 0]"

text \<open>
  What one run of the loop over \<open>ls\<close>, started after \<open>m\<close> items in state \<open>st\<close> and
  world \<open>w\<close>, has done when it ends with \<open>r\<close> in world \<open>w'\<close> having appended the
  events \<open>ev\<close>.
\<close>

definition loop_result ::
  "config \<Rightarrow> nat \<Rightarrow> link list \<Rightarrow> loop_state \<Rightarrow> world \<Rightarrow> (error + loop_state) \<Rightarrow> world \<Rightarrow> event list \<Rightarrow> bool" where
  "loop_result c m ls st w r w' ev \<longleftrightarrow>
     w' = w\<lparr>trace := trace w @ ev,
            state_file := (if saves ev = [] then state_file w else Json_ids (last (saves ev)))\<rparr> \<and>
     map fst (items ev) = take (length (items ev)) ls \<and>
     fst ` set (posts ev) \<subseteq> request_for c ` set ls \<and>
     flushed_after m ev = flush_points m (synced st) (items ev) \<and>
     (case r of
        Inr st' \<Rightarrow>
          length (items ev) = length ls \<and> Status 403 \<notin> snd ` set (posts ev) \<and>
          st' = st\<lparr>synced := synced st \<union> ok_ids (items ev),
                    new_count := new_count st + length (filter snd (items ev)),
                    failed_count := failed_count st + length (filter (\<lambda>x. \<not> snd x) (items ev))\<rparr>
      | Inl e \<Rightarrow>
          e = AuthenticationFailed \<and> length (items ev) < length ls \<and>
          (\<exists>ev0. ev = ev0 @ [Post (request_for c (ls ! length (items ev))) (Status 403)] \<and>
                 Status 403 \<notin> snd ` set (posts ev0)))"

subsection \<open>Concrete servers, sources and worlds\<close>

text \<open>A server that gives the same answer to every request.\<close>

definition always :: "response \<Rightarrow> event list \<Rightarrow> request \<Rightarrow> response" where
  "always resp h rq = resp"

text \<open>A server that answers 403 to requests for one URL and 201 to all others.\<close>

definition rejecting :: "string \<Rightarrow> event list \<Rightarrow> request \<Rightarrow> response" where
  "rejecting url h rq = (if req_url rq = url then Status 403 else Status 201)"

text \<open>A server that answers 400 to requests for one URL and 201 to all others.\<close>

definition refusing :: "string \<Rightarrow> event list \<Rightarrow> request \<Rightarrow> response" where
  "refusing url h rq = (if req_url rq = url then Status 400 else Status 201)"

text \<open>
  What the AppleScript of \<^verbatim>\<open>get_goodlinks\<close> returns for a list of links: per link
  its id, url and title separated by tabs and followed by a newline.
\<close>

definition osa_output :: "link list \<Rightarrow> string" where
  "osa_output ls =
     concat (map (\<lambda>l. link_id l @ [CHR 0x09] @ link_url l @ [CHR 0x09] @ link_title l @ [CHR 0x0A]) ls)"

definition example_env :: "(event list \<Rightarrow> request \<Rightarrow> response) \<Rightarrow> link list \<Rightarrow> env" where
  "example_env server ls =
     \<lparr>config_file = Some \<lparr>username = ''me'', password = ''secret'', launch_goodlinks_flag = True\<rparr>,
      srv = server,
      osa = \<lparr>returncode = 0, stdout = osa_output ls, stderr = []\<rparr>,
      open_ok = True, starts = True, quit_ok = True\<rparr>"

definition fresh_world :: world where
  "fresh_world = \<lparr>trace = [], state_file = Absent, app_running = True\<rparr>"

definition example_args :: args where
  "example_args = \<lparr>dry_run = False, quiet = False, max_retries = 3\<rparr>"

text \<open>One link per character \<open>ch\<close>, with id \<open>ch\<close>, url \<open>u\<close>\<open>ch\<close> and title \<open>t\<close>\<open>ch\<close>.\<close>

definition letter_links :: "string \<Rightarrow> link list" where
  "letter_links s =
     map (\<lambda>ch. \<lparr>link_id = [ch], link_url = [CHR ''u'', ch], link_title = [CHR ''t'', ch]\<rparr>) s"

section \<open>Properties of the loop and of a run\<close>

lemma net_only_append [simp]: "net_only (xs @ ys) = (net_only xs \<and> net_only ys)"
  by (induction xs rule: net_only.induct) auto

lemma posts_append [simp]: "posts (xs @ ys) = posts xs @ posts ys"
  by (induction xs rule: posts.induct) auto

lemma sleeps_append [simp]: "sleeps (xs @ ys) = sleeps xs @ sleeps ys"
  by (induction xs rule: sleeps.induct) auto

lemma saves_append [simp]: "saves (xs @ ys) = saves xs @ saves ys"
  by (induction xs rule: saves.induct) auto

lemma items_append [simp]: "items (xs @ ys) = items xs @ items ys"
  by (induction xs rule: items.induct) auto

lemma flushed_after_append [simp]:
  "flushed_after n (xs @ ys) = flushed_after n xs @ flushed_after (n + length (items xs)) ys"
  by (induction n xs rule: flushed_after.induct) auto

lemma net_only_saves [simp]: "net_only ev \<Longrightarrow> saves ev = []"
  by (induction ev rule: net_only.induct) auto

lemma net_only_items [simp]: "net_only ev \<Longrightarrow> items ev = []"
  by (induction ev rule: net_only.induct) auto

lemma net_only_flushed [simp]: "net_only ev \<Longrightarrow> flushed_after n ev = []"
  by (induction ev arbitrary: n rule: net_only.induct) auto

lemma attempts_extends:
  "attempts server rq maxr as w = (r, w') \<Longrightarrow>
     \<exists>ev. w' = w\<lparr>trace := trace w @ ev\<rparr> \<and> net_only ev \<and> fst ` set (posts ev) \<subseteq> {rq} \<and>
          ((r = Inr True \<or> r = Inr False) \<and> Status 403 \<notin> snd ` set (posts ev) \<or>
           r = Inl AuthenticationFailed \<and>
             (\<exists>ev0. ev = ev0 @ [Post rq (Status 403)] \<and> Status 403 \<notin> snd ` set (posts ev0)))"
proof (induction as arbitrary: w)
  case Nil
  then show ?case by (auto intro: exI [of _ "[]"])
next
  case (Cons attempt rest)
  let ?resp = "server (trace w) rq"
  let ?w1 = "w\<lparr>trace := trace w @ [Post rq ?resp]\<rparr>"
  let ?w2 = "?w1\<lparr>trace := trace ?w1 @ [Sleep (2 ^ nat attempt)]\<rparr>"
  have stop: ?case if "w' = ?w1" "r = Inr True \<or> r = Inr False" "?resp \<noteq> Status 403"
    using that by (intro exI [of _ "[Post rq ?resp]"]) auto
  have forbidden: ?case if "w' = ?w1" "r = Inl AuthenticationFailed" "?resp = Status 403"
    using that by (intro exI [of _ "[Post rq ?resp]"]) auto
  have retry: ?case if "attempts server rq maxr rest ?w2 = (r, w')" "?resp \<noteq> Status 403"
  proof -
    from Cons.IH [OF that(1)] obtain ev where
      ev: "w' = ?w2\<lparr>trace := trace ?w2 @ ev\<rparr>" "net_only ev" "fst ` set (posts ev) \<subseteq> {rq}"
        "(r = Inr True \<or> r = Inr False) \<and> Status 403 \<notin> snd ` set (posts ev) \<or>
           r = Inl AuthenticationFailed \<and>
             (\<exists>ev0. ev = ev0 @ [Post rq (Status 403)] \<and> Status 403 \<notin> snd ` set (posts ev0))"
      by blast
    let ?pre = "[Post rq ?resp, Sleep (2 ^ nat attempt)]"
    from ev(4) have "(r = Inr True \<or> r = Inr False) \<and> Status 403 \<notin> snd ` set (posts (?pre @ ev)) \<or>
           r = Inl AuthenticationFailed \<and>
             (\<exists>ev0. ?pre @ ev = ev0 @ [Post rq (Status 403)] \<and> Status 403 \<notin> snd ` set (posts ev0))"
    proof (elim disjE conjE exE)
      fix ev0 assume "r = Inl AuthenticationFailed" "ev = ev0 @ [Post rq (Status 403)]"
        "Status 403 \<notin> snd ` set (posts ev0)"
      then have "r = Inl AuthenticationFailed \<and> ?pre @ ev = (?pre @ ev0) @ [Post rq (Status 403)] \<and>
          Status 403 \<notin> snd ` set (posts (?pre @ ev0))"
        using that(2) by simp
      then show ?thesis by blast
    qed (use that(2) in auto)
    with ev(1-3) show ?thesis
      by (intro exI [of _ "?pre @ ev"]) simp
  qed
  from Cons.prems show ?case
    by (auto simp: Let_def split: response.splits if_splits intro: stop retry forbidden)
qed

lemma attempts_first_post:
  assumes "attempts server rq maxr (attempt # rest) w = (r, w')"
  shows "\<exists>resp ev. trace w' = trace w @ Post rq resp # ev"
proof -
  let ?resp = "server (trace w) rq"
  let ?w1 = "w\<lparr>trace := trace w @ [Post rq ?resp]\<rparr>"
  let ?w2 = "?w1\<lparr>trace := trace ?w1 @ [Sleep (2 ^ nat attempt)]\<rparr>"
  have stop: ?thesis if "w' = ?w1"
    using that by simp
  have retry: ?thesis if "attempts server rq maxr rest ?w2 = (r, w')"
  proof -
    from attempts_extends [OF that] obtain ev where "w' = ?w2\<lparr>trace := trace ?w2 @ ev\<rparr>"
      by blast
    then have "trace w' = trace w @ Post rq ?resp # (Sleep (2 ^ nat attempt) # ev)"
      by simp
    then show ?thesis by blast
  qed
  from assms show ?thesis
    by (auto simp: Let_def split: response.splits if_splits intro: stop retry)
qed

lemma ok_ids_Nil [simp]: "ok_ids [] = {}"
  by (simp add: ok_ids_def)

lemma ok_ids_Cons [simp]:
  "ok_ids ((l, ok) # rs) = (if ok then insert (link_id l) (ok_ids rs) else ok_ids rs)"
  by (simp add: ok_ids_def)

lemma sync_loop_Cons_cases:
  assumes "sync_loop E c a i (l # ls) st w = (r, w')"
  obtains (abort) ev0 where "r = Inl AuthenticationFailed"
      "w' = w\<lparr>trace := trace w @ ev0 @ [Post (request_for c l) (Status 403)]\<rparr>"
      "net_only ev0" "fst ` set (posts ev0) \<subseteq> {request_for c l}"
      "Status 403 \<notin> snd ` set (posts ev0)"
  | (continue) ev ok where "net_only ev" "fst ` set (posts ev) \<subseteq> {request_for c l}"
      "Status 403 \<notin> snd ` set (posts ev)"
      "sync_loop E c a (Suc i) ls
         (if ok then st\<lparr>synced := insert (link_id l) (synced st), new_count := new_count st + 1\<rparr>
          else st\<lparr>failed_count := failed_count st + 1\<rparr>)
         (w\<lparr>trace := trace w @ ev @ Item l ok #
               (if i mod 10 = 0 then [Save (if ok then insert (link_id l) (synced st) else synced st)] else []),
            state_file := (if i mod 10 = 0
               then Json_ids (if ok then insert (link_id l) (synced st) else synced st)
               else state_file w)\<rparr>) = (r, w')"
      "0 \<le> max_retries a \<longrightarrow> request_for c l \<in> fst ` set (posts ev)"
proof -
  obtain r1 w1 where add: "add_to_instapaper (srv E) (link_url l) (link_title l) (username c)
      (password c) (max_retries a) w = (r1, w1)"
    by (cases "add_to_instapaper (srv E) (link_url l) (link_title l) (username c)
      (password c) (max_retries a) w") auto
  then have att: "attempts (srv E) (request_for c l) (max_retries a) [0..max_retries a] w = (r1, w1)"
    by (simp add: add_to_instapaper_def request_for_def)
  from attempts_extends [OF att] obtain ev where
    ev: "w1 = w\<lparr>trace := trace w @ ev\<rparr>" "net_only ev"
      "(r1 = Inr True \<or> r1 = Inr False) \<and> Status 403 \<notin> snd ` set (posts ev) \<or>
        r1 = Inl AuthenticationFailed \<and>
          (\<exists>ev0. ev = ev0 @ [Post (request_for c l) (Status 403)] \<and> Status 403 \<notin> snd ` set (posts ev0))"
    and p: "fst ` set (posts ev) \<subseteq> {request_for c l}"
    by blast
  have ne: "0 \<le> max_retries a \<longrightarrow> request_for c l \<in> fst ` set (posts ev)"
  proof
    assume "0 \<le> max_retries a"
    then have "[0..max_retries a] = 0 # [0 + 1..max_retries a]"
      by (rule upto_rec1)
    with att attempts_first_post [of "srv E" "request_for c l" "max_retries a" 0
        "[0 + 1..max_retries a]" w r1 w1]
    obtain resp ev' where "trace w1 = trace w @ Post (request_for c l) resp # ev'"
      by auto
    with ev(1) have "ev = Post (request_for c l) resp # ev'"
      by simp
    then show "request_for c l \<in> fst ` set (posts ev)"
      by (simp add: image_iff)
  qed
  show thesis
  proof (cases r1)
    case (Inl e)
    with ev(3) obtain ev0 where e0: "e = AuthenticationFailed"
        "ev = ev0 @ [Post (request_for c l) (Status 403)]" "Status 403 \<notin> snd ` set (posts ev0)"
      by auto
    have "r = Inl AuthenticationFailed" "w' = w1"
      using assms add Inl e0 by auto
    then show thesis
      using abort [of ev0] ev(1,2) e0 p by auto
  next
    case (Inr ok)
    with ev(3) have n403: "Status 403 \<notin> snd ` set (posts ev)"
      by auto
    let ?S1 = "if ok then insert (link_id l) (synced st) else synced st"
    let ?st1 = "if ok then st\<lparr>synced := insert (link_id l) (synced st), new_count := new_count st + 1\<rparr>
          else st\<lparr>failed_count := failed_count st + 1\<rparr>"
    let ?w2 = "w1\<lparr>trace := trace w1 @ [Item l ok]\<rparr>"
    let ?w3 = "w\<lparr>trace := trace w @ ev @ Item l ok # (if i mod 10 = 0 then [Save ?S1] else []),
            state_file := (if i mod 10 = 0 then Json_ids ?S1 else state_file w)\<rparr>"
    have s1: "synced ?st1 = ?S1"
      by simp
    have weq: "(if i mod 10 = 0 then save_synced_ids (synced ?st1) ?w2 else ?w2) = ?w3"
      unfolding s1 using ev(1) by (simp add: save_synced_ids_def)
    have "sync_loop E c a (i + 1) ls ?st1
            (if i mod 10 = 0 then save_synced_ids (synced ?st1) ?w2 else ?w2) = (r, w')"
      using assms add Inr by (simp add: Let_def)
    then have loop: "sync_loop E c a (Suc i) ls ?st1 ?w3 = (r, w')"
      unfolding weq by simp
    show thesis
      by (rule continue [OF ev(2) p n403 loop ne])
  qed
qed

lemma flush_points_Nil [simp]: "flush_points m S [] = []"
  by (simp add: flush_points_def)

lemma flush_points_Cons:
  "flush_points m S ((l, ok) # rs) =
     (if Suc m mod 10 = 0 then [(Suc m, if ok then insert (link_id l) S else S)] else []) @
     flush_points (Suc m) (if ok then insert (link_id l) S else S) rs"
proof -
  have up: "[Suc m..<Suc (m + length ((l, ok) # rs))] = Suc m # [Suc (Suc m)..<Suc (Suc m + length rs)]"
    by (subst upt_conv_Cons) simp_all
  have tl: "map (\<lambda>j. (j, S \<union> ok_ids (take (j - m) ((l, ok) # rs))))
              [j \<leftarrow> [Suc (Suc m)..<Suc (Suc m + length rs)]. j mod 10 = 0] =
            flush_points (Suc m) (if ok then insert (link_id l) S else S) rs"
    unfolding flush_points_def
  proof (rule map_cong [OF refl])
    fix j assume "j \<in> set [j \<leftarrow> [Suc (Suc m)..<Suc (Suc m + length rs)]. j mod 10 = 0]"
    then have "Suc m < j" by (simp del: upt_Suc)
    then have "j - m = Suc (j - Suc m)" by simp
    then show "(j, S \<union> ok_ids (take (j - m) ((l, ok) # rs))) =
               (j, (if ok then insert (link_id l) S else S) \<union> ok_ids (take (j - Suc m) rs))"
      by simp
  qed
  show ?thesis
    unfolding flush_points_def [of m] up using tl by simp
qed

lemma sync_loop_run:
  "sync_loop E c a (Suc m) ls st w = (r, w') \<Longrightarrow> \<exists>ev. loop_result c m ls st w r w' ev"
proof (induction ls arbitrary: m st w)
  case Nil
  then have "loop_result c m [] st w r w' []"
    by (auto simp: loop_result_def)
  then show ?case ..
next
  case (Cons l ls)
  from Cons.prems show ?case
  proof (cases rule: sync_loop_Cons_cases)
    case (abort ev0)
    have "loop_result c m (l # ls) st w r w' (ev0 @ [Post (request_for c l) (Status 403)])"
      using abort by (auto simp: loop_result_def)
    then show ?thesis ..
  next
    case (continue ev1 ok)
    let ?S1 = "if ok then insert (link_id l) (synced st) else synced st"
    let ?st1 = "if ok then st\<lparr>synced := insert (link_id l) (synced st), new_count := new_count st + 1\<rparr>
          else st\<lparr>failed_count := failed_count st + 1\<rparr>"
    let ?sv = "if Suc m mod 10 = 0 then [Save ?S1] else []"
    let ?w3 = "w\<lparr>trace := trace w @ ev1 @ Item l ok # ?sv,
            state_file := (if Suc m mod 10 = 0 then Json_ids ?S1 else state_file w)\<rparr>"
    have s1: "synced ?st1 = ?S1" by simp
    from Cons.IH [OF continue(4)] obtain ev' where IH: "loop_result c (Suc m) ls ?st1 ?w3 r w' ev'"
      by blast
    let ?ev = "ev1 @ Item l ok # ?sv @ ev'"
    have its: "items ?ev = (l, ok) # items ev'"
      using continue(1) by simp
    have svs: "saves ?ev = (if Suc m mod 10 = 0 then [?S1] else []) @ saves ev'"
      using continue(1) by simp
    have w': "w' = w\<lparr>trace := trace w @ ?ev,
            state_file := (if saves ?ev = [] then state_file w else Json_ids (last (saves ?ev)))\<rparr>"
      using IH unfolding svs loop_result_def by simp
    have pre: "map fst (items ?ev) = take (length (items ?ev)) (l # ls)"
      using IH unfolding its loop_result_def by simp
    have po: "fst ` set (posts ?ev) \<subseteq> request_for c ` set (l # ls)"
      using IH continue(2) unfolding loop_result_def by auto
    have fl: "flushed_after m ?ev = flush_points m (synced st) (items ?ev)"
      using IH continue(1) unfolding its flush_points_Cons loop_result_def s1 by simp
    have res: "(case r of
        Inr st' \<Rightarrow>
          length (items ?ev) = length (l # ls) \<and> Status 403 \<notin> snd ` set (posts ?ev) \<and>
          st' = st\<lparr>synced := synced st \<union> ok_ids (items ?ev),
                    new_count := new_count st + length (filter snd (items ?ev)),
                    failed_count := failed_count st + length (filter (\<lambda>x. \<not> snd x) (items ?ev))\<rparr>
      | Inl e \<Rightarrow>
          e = AuthenticationFailed \<and> length (items ?ev) < length (l # ls) \<and>
          (\<exists>ev0. ?ev = ev0 @ [Post (request_for c ((l # ls) ! length (items ?ev))) (Status 403)] \<and>
                 Status 403 \<notin> snd ` set (posts ev0)))"
    proof (cases r)
      case (Inr st')
      with IH continue(3) show ?thesis
        unfolding its loop_result_def by (cases ok) auto
    next
      case (Inl e)
      with IH obtain ev0 where "e = AuthenticationFailed" "length (items ev') < length ls"
        "ev' = ev0 @ [Post (request_for c (ls ! length (items ev'))) (Status 403)]"
        "Status 403 \<notin> snd ` set (posts ev0)"
        unfolding loop_result_def by auto
      then have "?ev = (ev1 @ Item l ok # ?sv @ ev0) @
          [Post (request_for c ((l # ls) ! length (items ?ev))) (Status 403)] \<and>
          Status 403 \<notin> snd ` set (posts (ev1 @ Item l ok # ?sv @ ev0))"
        unfolding its using continue(3) by (auto simp: image_Un)
      then have "\<exists>ev0. ?ev = ev0 @
          [Post (request_for c ((l # ls) ! length (items ?ev))) (Status 403)] \<and>
          Status 403 \<notin> snd ` set (posts ev0)"
        by (rule exI)
      with \<open>e = AuthenticationFailed\<close> \<open>length (items ev') < length ls\<close> Inl show ?thesis
        unfolding its by simp
    qed
    have "loop_result c m (l # ls) st w r w' ?ev"
      unfolding loop_result_def using w' pre po fl res by blast
    then show ?thesis ..
  qed
qed

lemma new_events_append [simp]: "trace w' = trace w @ ev \<Longrightarrow> new_events w w' = ev"
  by (simp add: new_events_def)

lemma ensure_goodlinks_running_cases:
  assumes "ensure_goodlinks_running E b w = (re, w1)"
  shows "(\<exists>pre. (pre = [] \<or> pre = [Sleep 2]) \<and> trace w1 = trace w @ pre) \<and>
         state_file w1 = state_file w \<and> (re = Inl LaunchFailed \<or> re = Inr True \<or> re = Inr False)"
  using assms
  by (auto simp: ensure_goodlinks_running_def launch_goodlinks_def is_goodlinks_running_def
      split: if_splits)

lemma get_goodlinks_errors:
  "get_goodlinks r = Inl e \<Longrightarrow> e \<noteq> AuthenticationFailed"
  by (auto simp: get_goodlinks_def split: if_splits)

lemma load_synced_ids_errors:
  "load_synced_ids w = Inl e \<Longrightarrow> e \<noteq> AuthenticationFailed"
  by (auto simp: load_synced_ids_def split: file_content.splits)

lemma sync_links_cases:
  assumes "sync_links E c a w = (r, w')"
  obtains (idle) "w' = w" "\<forall>n f. r \<noteq> Inr (Done n f)" "r \<noteq> Inl AuthenticationFailed"
      "(\<exists>e. r = Inl e \<and> (get_goodlinks (osa E) = Inl e \<or> load_synced_ids w = Inl e)) \<or>
       (\<exists>L S. get_goodlinks (osa E) = Inr L \<and> load_synced_ids w = Inr S \<and>
          (if dry_run a then r = Inr (Would_sync (map (\<lambda>l. take 70 (link_title l)) (to_sync L S)))
           else to_sync L S = [] \<and> r = Inr Nothing_to_sync))"
  | (looped) L S evl rl wl where
      "get_goodlinks (osa E) = Inr L" "load_synced_ids w = Inr S" "\<not> dry_run a"
      "to_sync L S \<noteq> []"
      "sync_loop E c a (Suc 0) (to_sync L S) \<lparr>synced = S, new_count = 0, failed_count = 0\<rparr> w
         = (rl, wl)"
      "loop_result c 0 (to_sync L S) \<lparr>synced = S, new_count = 0, failed_count = 0\<rparr> w rl wl evl"
      "case rl of
         Inl e \<Rightarrow> r = Inl e \<and> w' = wl
       | Inr st \<Rightarrow> r = Inr (Done (new_count st) (failed_count st)) \<and>
                   w' = save_synced_ids (synced st) wl"
proof (cases "get_goodlinks (osa E)")
  case (Inl e)
  with assms get_goodlinks_errors [OF Inl] show thesis
    by (intro idle) (auto simp: sync_links_def)
next
  case L: (Inr L)
  show thesis
  proof (cases "load_synced_ids w")
    case (Inl e)
    with assms L load_synced_ids_errors [OF Inl] show thesis
      by (intro idle) (auto simp: sync_links_def)
  next
    case S: (Inr S)
    show thesis
    proof (cases "dry_run a \<or> to_sync L S = []")
      case True
      with assms L S show thesis
        by (intro idle) (auto simp: sync_links_def Let_def split: if_splits)
    next
      case False
      obtain rl wl where loop: "sync_loop E c a (Suc 0) (to_sync L S)
          \<lparr>synced = S, new_count = 0, failed_count = 0\<rparr> w = (rl, wl)"
        by (cases "sync_loop E c a (Suc 0) (to_sync L S)
          \<lparr>synced = S, new_count = 0, failed_count = 0\<rparr> w") auto
      from sync_loop_run [OF loop] obtain evl where
        "loop_result c 0 (to_sync L S) \<lparr>synced = S, new_count = 0, failed_count = 0\<rparr> w rl wl evl"
        by blast
      moreover have "case rl of
         Inl e \<Rightarrow> r = Inl e \<and> w' = wl
       | Inr st \<Rightarrow> r = Inr (Done (new_count st) (failed_count st)) \<and>
                   w' = save_synced_ids (synced st) wl"
        using assms L S False loop by (auto simp: sync_links_def Let_def split: sum.splits)
      ultimately show thesis
        using looped [OF L S _ _ loop] False by blast
    qed
  qed
qed

lemma cmd_sync_cases:
  assumes "cmd_sync E a w = (r, w')"
  obtains (skipped) "new_events w w' = [] \<or> new_events w w' = [Sleep 2]"
      "trace w' = trace w @ new_events w w'" "state_file w' = state_file w"
      "\<forall>n f. r \<noteq> Inr (Done n f)" "r \<noteq> Inl AuthenticationFailed"
      "r = Inl ConfigNotFound \<or> r = Inl LaunchFailed \<or> r = Inr Not_running \<or>
       (\<exists>e. r = Inl e \<and> (get_goodlinks (osa E) = Inl e \<or> load_synced_ids w = Inl e)) \<or>
       (\<exists>L S. get_goodlinks (osa E) = Inr L \<and> load_synced_ids w = Inr S \<and>
          (if dry_run a then r = Inr (Would_sync (map (\<lambda>l. take 70 (link_title l)) (to_sync L S)))
           else to_sync L S = [] \<and> r = Inr Nothing_to_sync))"
  | (ran) c L S pre evl rl w1 wl where
      "config_file E = Some c" "get_goodlinks (osa E) = Inr L" "load_synced_ids w = Inr S"
      "\<not> dry_run a" "to_sync L S \<noteq> []" "pre = [] \<or> pre = [Sleep 2]"
      "trace w1 = trace w @ pre" "state_file w1 = state_file w"
      "sync_loop E c a (Suc 0) (to_sync L S) \<lparr>synced = S, new_count = 0, failed_count = 0\<rparr> w1
         = (rl, wl)"
      "loop_result c 0 (to_sync L S) \<lparr>synced = S, new_count = 0, failed_count = 0\<rparr> w1 rl wl evl"
      "case rl of
         Inl e \<Rightarrow> r = Inl e \<and> new_events w w' = pre @ evl \<and> state_file w' = state_file wl
       | Inr st \<Rightarrow> r = Inr (Done (new_count st) (failed_count st)) \<and>
                   new_events w w' = pre @ evl @ [Save (synced st)] \<and>
                   state_file w' = Json_ids (synced st)"
      "trace w' = trace w @ new_events w w'"
proof (cases "config_file E")
  case None
  with assms have "r = Inl ConfigNotFound" "w' = w"
    by (auto simp: cmd_sync_def load_config_def)
  then show thesis
    by (intro skipped) (auto simp: new_events_def)
next
  case (Some c)
  obtain re w1 where en: "ensure_goodlinks_running E (launch_goodlinks_flag c) w = (re, w1)"
    by (cases "ensure_goodlinks_running E (launch_goodlinks_flag c) w") auto
  from ensure_goodlinks_running_cases [OF en] obtain pre where
    pre: "pre = [] \<or> pre = [Sleep 2]" "trace w1 = trace w @ pre" "state_file w1 = state_file w"
      "re = Inl LaunchFailed \<or> re = Inr True \<or> re = Inr False"
    by blast
  show thesis
  proof (cases "re = Inr True")
    case False
    with assms Some en pre(4) have "w' = w1" "r = Inl LaunchFailed \<or> r = Inr Not_running"
      by (auto simp: cmd_sync_def load_config_def Let_def)
    with pre show thesis
      by (intro skipped) auto
  next
    case True
    obtain w2 where sl: "sync_links E c a w1 = (r, w2)"
      and w': "w' = (if \<not> is_goodlinks_running w then quit_goodlinks E w2 else w2)"
      using assms Some en True
      by (cases "sync_links E c a w1") (auto simp: cmd_sync_def load_config_def Let_def)
    have tw': "trace w' = trace w2" "state_file w' = state_file w2"
      unfolding w' by (auto simp: quit_goodlinks_def)
    have ld1: "load_synced_ids w1 = load_synced_ids w"
      using pre(3) by (simp add: load_synced_ids_def)
    from sl show thesis
    proof (cases rule: sync_links_cases)
      case idle
      from idle(1,2,3) pre tw' idle(4) [unfolded ld1] show ?thesis
        by (intro skipped) auto
    next
      case (looped L S evl rl wl)
      have ld: "load_synced_ids w = Inr S"
        using looped(2) pre(3) by (simp add: load_synced_ids_def)
      have twl: "trace wl = trace w1 @ evl"
        using looped(6) by (simp add: loop_result_def)
      have fin: "case rl of
         Inl e \<Rightarrow> r = Inl e \<and> new_events w w' = pre @ evl \<and> state_file w' = state_file wl
       | Inr st \<Rightarrow> r = Inr (Done (new_count st) (failed_count st)) \<and>
                   new_events w w' = pre @ evl @ [Save (synced st)] \<and>
                   state_file w' = Json_ids (synced st)"
        using looped(7) tw' twl pre(2)
        by (auto simp: save_synced_ids_def split: sum.splits)
      have ext: "trace w' = trace w @ new_events w w'"
        using looped(7) tw' twl pre(2)
        by (auto simp: save_synced_ids_def split: sum.splits)
      show ?thesis
        by (rule ran [OF Some looped(1) ld looped(3,4) pre(1,2,3) looped(5,6) fin ext])
    qed
  qed
qed

lemma add_to_instapaper_negative:
  "maxr < 0 \<Longrightarrow> add_to_instapaper server url title user pass maxr w = (Inr False, w)"
  by (simp add: add_to_instapaper_def)

lemma sync_loop_negative:
  "max_retries a < 0 \<Longrightarrow> sync_loop E c a i ls st w = (r, w') \<Longrightarrow>
     \<exists>ev. trace w' = trace w @ ev \<and> posts ev = [] \<and>
          items ev = map (\<lambda>l. (l, False)) ls \<and> (\<exists>st'. r = Inr st')"
proof (induction ls arbitrary: i st w)
  case Nil
  then show ?case by auto
next
  case (Cons l ls)
  let ?st1 = "st\<lparr>failed_count := failed_count st + 1\<rparr>"
  let ?w2 = "w\<lparr>trace := trace w @ [Item l False]\<rparr>"
  let ?w3 = "if i mod 10 = 0 then save_synced_ids (synced st) ?w2 else ?w2"
  have "sync_loop E c a (Suc i) ls ?st1 ?w3 = (r, w')"
    using Cons.prems
    by (cases "i mod 10 = 0") (simp_all add: add_to_instapaper_negative Let_def)
  from Cons.IH [OF Cons.prems(1) this] obtain ev where
    ev: "trace w' = trace ?w3 @ ev" "posts ev = []" "items ev = map (\<lambda>l. (l, False)) ls"
      "\<exists>st'. r = Inr st'"
    by blast
  let ?pre = "Item l False # (if i mod 10 = 0 then [Save (synced st)] else [])"
  have "trace ?w3 = trace w @ ?pre"
    by (simp add: save_synced_ids_def)
  with ev have "trace w' = trace w @ (?pre @ ev) \<and> posts (?pre @ ev) = [] \<and>
      items (?pre @ ev) = map (\<lambda>l. (l, False)) (l # ls) \<and> (\<exists>st'. r = Inr st')"
    by simp
  then show ?case by blast
qed

lemma ran_items:
  assumes "pre = [] \<or> pre = [Sleep 2]"
  shows "items (pre @ evl) = items evl" "items (pre @ evl @ [Save X]) = items evl"
    "posts (pre @ evl) = posts evl" "posts (pre @ evl @ [Save X]) = posts evl"
    "saves (pre @ evl) = saves evl" "saves (pre @ evl @ [Save X]) = saves evl @ [X]"
    "flushed_after 0 (pre @ evl) = flushed_after 0 evl"
    "flushed_after 0 (pre @ evl @ [Save X]) = flushed_after 0 evl @ [(length (items evl), X)]"
  using assms by auto

text \<open>The equations that evaluate a run on a concrete input.\<close>

lemmas run_defs =
  cmd_sync_def sync_links_def load_config_def ensure_goodlinks_running_def
  is_goodlinks_running_def launch_goodlinks_def quit_goodlinks_def
  get_goodlinks_def load_synced_ids_def to_sync_def save_synced_ids_def
  add_to_instapaper_def upto.simps strip_def is_space_def parse_line_def Let_def

lemmas example_defs =
  example_env_def example_args_def fresh_world_def letter_links_def osa_output_def
  always_def rejecting_def refusing_def

lemma saves_flushed: "saves ev = map snd (flushed_after n ev)"
  by (induction n ev rule: flushed_after.induct) auto

lemma ok_ids_take_subset: "ok_ids (take j rs) \<subseteq> ok_ids rs"
  unfolding ok_ids_def by (intro image_mono) (auto dest: in_set_takeD)


lemma flush_points_sets: "X \<in> snd ` set (flush_points m S rs) \<Longrightarrow> S \<subseteq> X \<and> X \<subseteq> S \<union> ok_ids rs"
  using ok_ids_take_subset by (fastforce simp: flush_points_def)

lemma run_flushes:
  assumes "cmd_sync E a w = (r, w')" and "load_synced_ids w = Inr S"
  shows "flushed_after 0 (new_events w w') =
           flush_points 0 S (items (new_events w w')) @
           (if \<exists>n f. r = Inr (Done n f)
            then [(length (items (new_events w w')), S \<union> ok_ids (items (new_events w w')))]
            else [])"
  using assms(1)
proof (cases rule: cmd_sync_cases)
  case skipped
  from skipped(1,4) show ?thesis by auto
next
  case (ran c L S' pre evl rl w1 wl)
  from ran(3) assms(2) have S: "S' = S" by simp
  have fl: "flushed_after 0 evl = flush_points 0 S (items evl)"
    using ran(10) unfolding S loop_result_def by simp
  show ?thesis
  proof (cases rl)
    case (Inl e)
    with ran(11) have "new_events w w' = pre @ evl" "r = Inl e" by simp_all
    then show ?thesis
      using fl ran_items [OF ran(6)] by simp
  next
    case (Inr st)
    with ran(11) have "new_events w w' = pre @ evl @ [Save (synced st)]"
      "r = Inr (Done (new_count st) (failed_count st))" by simp_all
    moreover have "synced st = S \<union> ok_ids (items evl)"
      using ran(10) unfolding S Inr loop_result_def by simp
    ultimately show ?thesis
      using fl ran_items [OF ran(6)] by simp
  qed
qed

lemma run_state_file:
  assumes "cmd_sync E a w = (r, w')"
  shows "state_file w' = (if saves (new_events w w') = [] then state_file w
                          else Json_ids (last (saves (new_events w w'))))"
  using assms(1)
proof (cases rule: cmd_sync_cases)
  case skipped
  from skipped(1,3) show ?thesis by auto
next
  case (ran c L S pre evl rl w1 wl)
  have wl: "state_file wl = (if saves evl = [] then state_file w1 else Json_ids (last (saves evl)))"
    using ran(10) unfolding loop_result_def by simp
  show ?thesis
  proof (cases rl)
    case (Inl e)
    with ran(11) have "new_events w w' = pre @ evl" "state_file w' = state_file wl" by simp_all
    then show ?thesis
      using wl ran(8) ran_items [OF ran(6)] by simp
  next
    case (Inr st)
    with ran(11) have "new_events w w' = pre @ evl @ [Save (synced st)]"
      "state_file w' = Json_ids (synced st)" by simp_all
    then show ?thesis
      using ran_items [OF ran(6)] by simp
  qed
qed

lemma run_done:
  assumes "cmd_sync E a w = (Inr (Done n f), w')"
    and "get_goodlinks (osa E) = Inr L" and "load_synced_ids w = Inr S"
  shows "map fst (items (new_events w w')) = to_sync L S"
    and "n = length (filter snd (items (new_events w w')))"
    and "f = length (filter (\<lambda>x. \<not> snd x) (items (new_events w w')))"
    and "state_file w' = Json_ids (S \<union> ok_ids (items (new_events w w')))"
    and "Status 403 \<notin> snd ` set (posts (new_events w w'))"
    and "to_sync L S \<noteq> []" and "\<not> dry_run a"
proof -
  have "map fst (items (new_events w w')) = to_sync L S \<and>
    n = length (filter snd (items (new_events w w'))) \<and>
    f = length (filter (\<lambda>x. \<not> snd x) (items (new_events w w'))) \<and>
    state_file w' = Json_ids (S \<union> ok_ids (items (new_events w w'))) \<and>
    Status 403 \<notin> snd ` set (posts (new_events w w')) \<and> to_sync L S \<noteq> [] \<and> \<not> dry_run a"
    using assms(1)
  proof (cases rule: cmd_sync_cases)
    case skipped
    from skipped(4) show ?thesis by simp
  next
    case (ran c L' S' pre evl rl w1 wl)
    from ran(2,3) assms(2,3) have eq: "L' = L" "S' = S" by simp_all
    from ran(11) obtain st where rl: "rl = Inr st"
      by (cases rl) auto
    from ran(11) have nev: "new_events w w' = pre @ evl @ [Save (synced st)]"
      and nf: "n = new_count st" "f = failed_count st"
      and sf: "state_file w' = Json_ids (synced st)"
      unfolding rl by simp_all
    from ran(10) have lr: "length (items evl) = length (to_sync L S)"
      "map fst (items evl) = take (length (items evl)) (to_sync L S)"
      "Status 403 \<notin> snd ` set (posts evl)"
      "synced st = S \<union> ok_ids (items evl)"
      "new_count st = length (filter snd (items evl))"
      "failed_count st = length (filter (\<lambda>x. \<not> snd x) (items evl))"
      unfolding eq rl loop_result_def by simp_all
    show ?thesis
      unfolding nev ran_items [OF ran(6)] nf sf
      using lr ran(4,5) unfolding eq by simp
  qed
  then show "map fst (items (new_events w w')) = to_sync L S"
    and "n = length (filter snd (items (new_events w w')))"
    and "f = length (filter (\<lambda>x. \<not> snd x) (items (new_events w w')))"
    and "state_file w' = Json_ids (S \<union> ok_ids (items (new_events w w')))"
    and "Status 403 \<notin> snd ` set (posts (new_events w w'))"
    and "to_sync L S \<noteq> []" and "\<not> dry_run a"
    by simp_all
qed

lemma run_error:
  assumes "cmd_sync E a w = (Inl e, w')"
    and "get_goodlinks (osa E) = Inr L" and "load_synced_ids w = Inr S"
  shows "e = ConfigNotFound \<or> e = LaunchFailed \<or>
         e = AuthenticationFailed \<and>
         length (items (new_events w w')) < length (to_sync L S) \<and>
         map fst (items (new_events w w')) = take (length (items (new_events w w'))) (to_sync L S) \<and>
         (\<exists>c ev0. config_file E = Some c \<and>
            new_events w w' =
              ev0 @ [Post (request_for c (to_sync L S ! length (items (new_events w w')))) (Status 403)] \<and>
            Status 403 \<notin> snd ` set (posts ev0))"
  using assms(1)
proof (cases rule: cmd_sync_cases)
  case skipped
  from skipped(6) assms(2,3) show ?thesis by (auto split: if_splits)
next
  case (ran c L' S' pre evl rl w1 wl)
  from ran(2,3) assms(2,3) have eq: "L' = L" "S' = S" by simp_all
  from ran(11) have rl: "rl = Inl e"
    by (cases rl) auto
  from ran(11) have nev: "new_events w w' = pre @ evl"
    unfolding rl by simp
  from ran(10) obtain ev0 where lr: "e = AuthenticationFailed"
    "length (items evl) < length (to_sync L S)"
    "map fst (items evl) = take (length (items evl)) (to_sync L S)"
    "evl = ev0 @ [Post (request_for c (to_sync L S ! length (items evl))) (Status 403)]"
    "Status 403 \<notin> snd ` set (posts ev0)"
    unfolding eq rl loop_result_def by auto
  have "new_events w w' = (pre @ ev0) @
      [Post (request_for c (to_sync L S ! length (items (new_events w w')))) (Status 403)] \<and>
      Status 403 \<notin> snd ` set (posts (pre @ ev0))"
    unfolding nev ran_items [OF ran(6)] using lr(4,5) ran(6) by auto
  then have "\<exists>c' ev0. config_file E = Some c' \<and> new_events w w' = ev0 @
      [Post (request_for c' (to_sync L S ! length (items (new_events w w')))) (Status 403)] \<and>
      Status 403 \<notin> snd ` set (posts ev0)"
    using ran(1) by blast
  moreover have "length (items (new_events w w')) < length (to_sync L S)"
    "map fst (items (new_events w w')) = take (length (items (new_events w w'))) (to_sync L S)"
    unfolding nev ran_items [OF ran(6)] using lr(2,3) by simp_all
  ultimately show ?thesis
    using lr(1) by blast
qed


lemma run_posts:
  assumes "cmd_sync E a w = (r, w')"
    and "config_file E = Some c"
    and "get_goodlinks (osa E) = Inr L" and "load_synced_ids w = Inr S"
  shows "fst ` set (posts (new_events w w')) \<subseteq> request_for c ` set (to_sync L S)"
  using assms(1)
proof (cases rule: cmd_sync_cases)
  case skipped
  from skipped(1) show ?thesis by auto
next
  case (ran c' L' S' pre evl rl w1 wl)
  from ran(1,2,3) assms(2,3,4) have eq: "c' = c" "L' = L" "S' = S" by simp_all
  have "fst ` set (posts evl) \<subseteq> request_for c ` set (to_sync L S)"
    using ran(10) unfolding eq loop_result_def by simp
  moreover have "posts (new_events w w') = posts evl"
    using ran(11) ran_items [OF ran(6)] by (cases rl) simp_all
  ultimately show ?thesis by simp
qed



lemma sync_loop_posts:
  "sync_loop E c a (Suc m) ls st w = (r, w') \<Longrightarrow> trace w' = trace w @ ev \<Longrightarrow>
     fst ` set (posts ev) \<subseteq> request_for c ` set (take (Suc (length (items ev))) ls) \<and>
     (0 \<le> max_retries a \<longrightarrow>
        request_for c ` fst ` set (items ev) \<subseteq> fst ` set (posts ev) \<and>
        length (items ev) \<le> length (posts ev))"
proof (induction ls arbitrary: m st w ev)
  case Nil
  then show ?case by simp
next
  case (Cons l ls)
  from Cons.prems(1) show ?case
  proof (cases rule: sync_loop_Cons_cases)
    case (abort ev0)
    with Cons.prems(2) have "ev = ev0 @ [Post (request_for c l) (Status 403)]"
      by simp
    with abort(3,4) show ?thesis
      by auto
  next
    case (continue ev1 ok)
    let ?sv = "if Suc m mod 10 = 0
               then [Save (if ok then insert (link_id l) (synced st) else synced st)] else []"
    from sync_loop_run [OF continue(4)] obtain ev' where
      "trace w' = (trace w @ ev1 @ Item l ok # ?sv) @ ev'"
      unfolding loop_result_def by auto
    with Cons.prems(2) have ev: "ev = ev1 @ Item l ok # ?sv @ ev'"
      by simp
    from \<open>trace w' = (trace w @ ev1 @ Item l ok # ?sv) @ ev'\<close>
    have IH: "fst ` set (posts ev') \<subseteq> request_for c ` set (take (Suc (length (items ev'))) ls) \<and>
       (0 \<le> max_retries a \<longrightarrow>
          request_for c ` fst ` set (items ev') \<subseteq> fst ` set (posts ev') \<and>
          length (items ev') \<le> length (posts ev'))"
      by (intro Cons.IH [OF continue(4)]) simp
    have its: "items ev = (l, ok) # items ev'"
      unfolding ev using continue(1) by simp
    have po: "posts ev = posts ev1 @ posts ev'"
      unfolding ev by simp
    have a: "fst ` set (posts ev) \<subseteq> request_for c ` set (take (Suc (length (items ev))) (l # ls))"
      unfolding its po using IH continue(2) by auto
    have b: "request_for c ` fst ` set (items ev) \<subseteq> fst ` set (posts ev) \<and>
        length (items ev) \<le> length (posts ev)" if "0 \<le> max_retries a"
    proof -
      from that continue(5) have in1: "request_for c l \<in> fst ` set (posts ev1)"
        by simp
      then have "posts ev1 \<noteq> []"
        by auto
      then have "1 \<le> length (posts ev1)"
        by (cases "posts ev1") simp_all
      moreover from that IH have sub: "request_for c ` fst ` set (items ev') \<subseteq> fst ` set (posts ev')"
        and len: "length (items ev') \<le> length (posts ev')"
        by simp_all
      have "request_for c ` fst ` set (items ev) \<subseteq> fst ` set (posts ev)"
        unfolding its po using in1 sub by (auto simp: image_Un)
      ultimately show ?thesis
        unfolding its po using len by simp
    qed
    from a b show ?thesis
      by blast
  qed
qed

lemma run_posts_items:
  assumes "cmd_sync E a w = (r, w')"
    and "config_file E = Some c"
    and "get_goodlinks (osa E) = Inr L" and "load_synced_ids w = Inr S"
  shows "fst ` set (posts (new_events w w')) \<subseteq>
           request_for c ` set (take (Suc (length (items (new_events w w')))) (to_sync L S))"
    and "0 \<le> max_retries a \<Longrightarrow>
           request_for c ` fst ` set (items (new_events w w')) \<subseteq> fst ` set (posts (new_events w w'))"
    and "0 \<le> max_retries a \<Longrightarrow>
           length (items (new_events w w')) \<le> length (posts (new_events w w'))"
proof -
  have "fst ` set (posts (new_events w w')) \<subseteq>
           request_for c ` set (take (Suc (length (items (new_events w w')))) (to_sync L S)) \<and>
        (0 \<le> max_retries a \<longrightarrow>
           request_for c ` fst ` set (items (new_events w w')) \<subseteq> fst ` set (posts (new_events w w')) \<and>
           length (items (new_events w w')) \<le> length (posts (new_events w w')))"
    using assms(1)
  proof (cases rule: cmd_sync_cases)
    case skipped
    from skipped(1) show ?thesis by auto
  next
    case (ran c' L' S' pre evl rl w1 wl)
    from ran(1,2,3) assms(2,3,4) have eq: "c' = c" "L' = L" "S' = S" by simp_all
    have "trace wl = trace w1 @ evl"
      using ran(10) by (simp add: loop_result_def)
    from sync_loop_posts [OF ran(9) this]
    have "fst ` set (posts evl) \<subseteq> request_for c ` set (take (Suc (length (items evl))) (to_sync L S)) \<and>
       (0 \<le> max_retries a \<longrightarrow>
          request_for c ` fst ` set (items evl) \<subseteq> fst ` set (posts evl) \<and>
          length (items evl) \<le> length (posts evl))"
      unfolding eq .
    moreover have "posts (new_events w w') = posts evl" "items (new_events w w') = items evl"
      using ran(11) ran_items [OF ran(6)] by (cases rl; simp)+
    ultimately show ?thesis by simp
  qed
  then show "fst ` set (posts (new_events w w')) \<subseteq>
           request_for c ` set (take (Suc (length (items (new_events w w')))) (to_sync L S))"
    and "0 \<le> max_retries a \<Longrightarrow>
           request_for c ` fst ` set (items (new_events w w')) \<subseteq> fst ` set (posts (new_events w w'))"
    and "0 \<le> max_retries a \<Longrightarrow>
           length (items (new_events w w')) \<le> length (posts (new_events w w'))"
    by blast+
qed

lemma run_state_grows:
  assumes "cmd_sync E a w = (r, w')" and "load_synced_ids w = Inr S"
    and "load_synced_ids w' = Inr S'"
  shows "S \<subseteq> S'" and "S' \<subseteq> S \<union> ok_ids (items (new_events w w'))"
proof -
  let ?ev = "new_events w w'"
  have sf: "state_file w' = (if saves ?ev = [] then state_file w else Json_ids (last (saves ?ev)))"
    using assms(1) by (rule run_state_file)
  have "S \<subseteq> S' \<and> S' \<subseteq> S \<union> ok_ids (items ?ev)"
  proof (cases "saves ?ev = []")
    case True
    with sf assms(2,3) have "S' = S"
      by (simp add: load_synced_ids_def)
    then show ?thesis by simp
  next
    case False
    with sf assms(3) have S': "S' = last (saves ?ev)"
      by (simp add: load_synced_ids_def)
    have "last (saves ?ev) \<in> set (saves ?ev)"
      using False by simp
    then have "S' \<in> snd ` set (flushed_after 0 ?ev)"
      unfolding S' saves_flushed [of ?ev 0] by simp
    then have "S' \<in> snd ` set (flush_points 0 S (items ?ev)) \<or> S' = S \<union> ok_ids (items ?ev)"
      unfolding run_flushes [OF assms(1,2)] by (auto split: if_splits)
    then show ?thesis
      using flush_points_sets [of S' 0 S "items ?ev"] by auto
  qed
  then show "S \<subseteq> S'" and "S' \<subseteq> S \<union> ok_ids (items ?ev)"
    by simp_all
qed


lemma run_items_prefix:
  assumes "cmd_sync E a w = (r, w')"
    and "get_goodlinks (osa E) = Inr L" and "load_synced_ids w = Inr S"
  shows "map fst (items (new_events w w')) =
           take (length (items (new_events w w'))) (to_sync L S)"
  using assms(1)
proof (cases rule: cmd_sync_cases)
  case skipped
  from skipped(1) show ?thesis by auto
next
  case (ran c L' S' pre evl rl w1 wl)
  from ran(2,3) assms(2,3) have eq: "L' = L" "S' = S" by simp_all
  have "map fst (items evl) = take (length (items evl)) (to_sync L S)"
    using ran(10) unfolding eq loop_result_def by simp
  moreover have "items (new_events w w') = items evl"
    using ran(11) ran_items [OF ran(6)] by (cases rl) simp_all
  ultimately show ?thesis by simp
qed




section \<open>The claims\<close>

subsection \<open>The publisher\<close>

text \<open>
  Claim C1. With \<^verbatim>\<open>max_retries=3\<close>, against a server that answers every request with a
  status of 500 or more (503, say), with a timeout or with a connection error, the
  publisher posts four times and returns \<open>False\<close>. The waits between the posts are
  \<open>2 ^ attempt\<close> seconds for \<open>attempt = 0, 1, 2\<close>, that is 1, 2 and 4 seconds, where
  the claim, and the comment beside \<^verbatim>\<open>wait_time = 2**attempt\<close>, say 2, 4 and 8.
\<close>

theorem retry_waits_are_1_2_4:
  "resp = Timeout \<or> resp = ConnectionError \<or> (\<exists>code\<ge>500. resp = Status code) \<Longrightarrow>
   add_to_instapaper (always resp) url title user pass 3 w =
     (let rq = \<lparr>req_username = user, req_password = pass, req_url = url, req_title = title\<rparr>
      in (Inr False,
          w\<lparr>trace := trace w @
             [Post rq resp, Sleep 1, Post rq resp, Sleep 2, Post rq resp, Sleep 4, Post rq resp]\<rparr>))"
  by (auto simp: add_to_instapaper_def always_def upto.simps Let_def)

theorem retry_waits_are_1_2_4_witness:
  "add_to_instapaper (always (Status 503)) ''u'' ''t'' ''me'' ''secret'' 3 fresh_world =
     (Inr False,
      \<lparr>trace =
         [Post \<lparr>req_username = ''me'', req_password = ''secret'', req_url = ''u'', req_title = ''t''\<rparr> (Status 503),
          Sleep 1,
          Post \<lparr>req_username = ''me'', req_password = ''secret'', req_url = ''u'', req_title = ''t''\<rparr> (Status 503),
          Sleep 2,
          Post \<lparr>req_username = ''me'', req_password = ''secret'', req_url = ''u'', req_title = ''t''\<rparr> (Status 503),
          Sleep 4,
          Post \<lparr>req_username = ''me'', req_password = ''secret'', req_url = ''u'', req_title = ''t''\<rparr> (Status 503)],
       state_file = Absent, app_running = True\<rparr>)"
  using retry_waits_are_1_2_4 [of "Status 503" "''u''" "''t''" "''me''" "''secret''" fresh_world]
  by (simp add: fresh_world_def Let_def)

text \<open>
  Claim C4, as stated, makes every success status a success. The publisher compares
  the status with 201 only: a server that answers 200 gets one post and the result
  \<open>False\<close>.
\<close>

theorem status_200_is_a_failure:
  "add_to_instapaper (always (Status 200)) ''u'' ''t'' ''me'' ''secret'' 3 fresh_world =
     (Inr False,
      \<lparr>trace = [Post \<lparr>req_username = ''me'', req_password = ''secret'', req_url = ''u'',
                      req_title = ''t''\<rparr> (Status 200)],
       state_file = Absent, app_running = True\<rparr>)"
  by (simp add: add_to_instapaper_def always_def upto.simps Let_def fresh_world_def)

text \<open>
  Claim C4, amended. In every attempt, whichever its number, a status other than 403
  and below 500 ends the publisher after this one post, with no sleep and no retry:
  with \<open>True\<close> when the status is 201, with \<open>False\<close> for every other one, 400 and
  the success statuses other than 201 included.
\<close>

theorem status_classification:
  assumes "server (trace w) rq = Status code" and "code \<noteq> 403" and "code < 500"
  shows "attempts server rq maxr (attempt # rest) w =
           (Inr (code = 201), w\<lparr>trace := trace w @ [Post rq (Status code)]\<rparr>)"
  using assms by (simp add: Let_def)

theorem status_classification_witness:
  "attempts (always (Status 201)) (request_for \<lparr>username = ''me'', password = ''secret'',
       launch_goodlinks_flag = True\<rparr> \<lparr>link_id = ''a'', link_url = ''u'', link_title = ''t''\<rparr>)
     3 [0, 1, 2, 3] fresh_world =
     (Inr True,
      \<lparr>trace = [Post \<lparr>req_username = ''me'', req_password = ''secret'', req_url = ''u'',
                      req_title = ''t''\<rparr> (Status 201)],
       state_file = Absent, app_running = True\<rparr>) \<and>
   attempts (always (Status 400)) (request_for \<lparr>username = ''me'', password = ''secret'',
       launch_goodlinks_flag = True\<rparr> \<lparr>link_id = ''a'', link_url = ''u'', link_title = ''t''\<rparr>)
     3 [0, 1, 2, 3] fresh_world =
     (Inr False,
      \<lparr>trace = [Post \<lparr>req_username = ''me'', req_password = ''secret'', req_url = ''u'',
                      req_title = ''t''\<rparr> (Status 400)],
       state_file = Absent, app_running = True\<rparr>) \<and>
   attempts (always (Status 200)) (request_for \<lparr>username = ''me'', password = ''secret'',
       launch_goodlinks_flag = True\<rparr> \<lparr>link_id = ''a'', link_url = ''u'', link_title = ''t''\<rparr>)
     3 [2, 3] fresh_world =
     (Inr False,
      \<lparr>trace = [Post \<lparr>req_username = ''me'', req_password = ''secret'', req_url = ''u'',
                      req_title = ''t''\<rparr> (Status 200)],
       state_file = Absent, app_running = True\<rparr>)"
  using
    status_classification [of "always (Status 201)" fresh_world
      "request_for \<lparr>username = ''me'', password = ''secret'', launch_goodlinks_flag = True\<rparr>
         \<lparr>link_id = ''a'', link_url = ''u'', link_title = ''t''\<rparr>" 201 3 0 "[1, 2, 3]"]
    status_classification [of "always (Status 400)" fresh_world
      "request_for \<lparr>username = ''me'', password = ''secret'', launch_goodlinks_flag = True\<rparr>
         \<lparr>link_id = ''a'', link_url = ''u'', link_title = ''t''\<rparr>" 400 3 0 "[1, 2, 3]"]
    status_classification [of "always (Status 200)" fresh_world
      "request_for \<lparr>username = ''me'', password = ''secret'', launch_goodlinks_flag = True\<rparr>
         \<lparr>link_id = ''a'', link_url = ''u'', link_title = ''t''\<rparr>" 200 3 2 "[3]"]
  by (simp add: always_def fresh_world_def request_for_def)

text \<open>
  Claim C10. With a negative \<^verbatim>\<open>max_retries\<close> the range of the attempt loop is empty:
  the publisher returns \<open>False\<close> and leaves the world as it is, so a run posts
  nothing, reports every pending item as failed and counts no success.
\<close>

theorem negative_max_retries_never_posts:
  assumes "max_retries a < 0"
  shows "add_to_instapaper server url title user pass (max_retries a) w0 = (Inr False, w0) \<and>
         (cmd_sync E a w = (r, w') \<longrightarrow>
            posts (new_events w w') = [] \<and>
            (\<forall>x \<in> set (items (new_events w w')). \<not> snd x) \<and>
            (\<forall>n f. r = Inr (Done n f) \<longrightarrow> n = 0 \<and> f = length (items (new_events w w'))))"
proof (intro conjI impI)
  show "add_to_instapaper server url title user pass (max_retries a) w0 = (Inr False, w0)"
    using assms by (rule add_to_instapaper_negative)
next
  assume run: "cmd_sync E a w = (r, w')"
  have "posts (new_events w w') = [] \<and>
        (\<forall>x \<in> set (items (new_events w w')). \<not> snd x) \<and>
        (\<forall>n f. r = Inr (Done n f) \<longrightarrow> n = 0 \<and> f = length (items (new_events w w')))"
    using run
  proof (cases rule: cmd_sync_cases)
    case skipped
    from skipped(1,4) show ?thesis by auto
  next
    case (ran c L S pre evl rl w1 wl)
    from sync_loop_negative [OF assms ran(9)] obtain ev st' where
      ev: "trace wl = trace w1 @ ev" "posts ev = []"
        "items ev = map (\<lambda>l. (l, False)) (to_sync L S)" and rl: "rl = Inr st'"
      by blast
    have "trace wl = trace w1 @ evl"
      using ran(10) by (simp add: loop_result_def)
    with ev(1) have evl: "evl = ev" by simp
    have pre: "posts pre = []" "items pre = []"
      using ran(6) by auto
    have n: "new_count st' = length (filter snd (items evl))"
      using ran(10) unfolding rl loop_result_def by simp
    have f: "failed_count st' = length (filter (\<lambda>x. \<not> snd x) (items evl))"
      using ran(10) unfolding rl loop_result_def by simp
    have nev: "new_events w w' = pre @ evl @ [Save (synced st')]"
      and r: "r = Inr (Done (new_count st') (failed_count st'))"
      using ran(11) unfolding rl by simp_all
    have i: "items (new_events w w') = map (\<lambda>l. (l, False)) (to_sync L S)"
      unfolding nev evl using pre ev(3) by simp
    have p: "posts (new_events w w') = []"
      unfolding nev evl using pre ev(2) by simp
    have n0: "new_count st' = 0"
      unfolding n evl ev(3) by (simp add: filter_map comp_def)
    have f0: "failed_count st' = length (items (new_events w w'))"
      unfolding f i unfolding evl ev(3) by (simp add: filter_map comp_def)
    show ?thesis
      unfolding r using p i n0 f0 by auto
  qed
  then show "posts (new_events w w') = []"
    and "\<forall>x \<in> set (items (new_events w w')). \<not> snd x"
    and "\<forall>n f. r = Inr (Done n f) \<longrightarrow> n = 0 \<and> f = length (items (new_events w w'))"
    by blast+
qed

theorem negative_max_retries_never_posts_witness:
  "max_retries (example_args\<lparr>max_retries := - 1\<rparr>) < 0 \<and>
   add_to_instapaper (always (Status 201)) ''ua'' ''ta'' ''me'' ''secret'' (- 1) fresh_world
     = (Inr False, fresh_world) \<and>
   cmd_sync (example_env (always (Status 201)) (letter_links ''ab''))
       (example_args\<lparr>max_retries := - 1\<rparr>) fresh_world =
     (Inr (Done 0 2),
      \<lparr>trace = [Item \<lparr>link_id = ''a'', link_url = ''ua'', link_title = ''ta''\<rparr> False,
                Item \<lparr>link_id = ''b'', link_url = ''ub'', link_title = ''tb''\<rparr> False,
                Save {}],
       state_file = Json_ids {}, app_running = True\<rparr>) \<and>
   posts (new_events fresh_world
     (snd (cmd_sync (example_env (always (Status 201)) (letter_links ''ab''))
       (example_args\<lparr>max_retries := - 1\<rparr>) fresh_world))) = []"
proof -
  let ?a = "example_args\<lparr>max_retries := - 1\<rparr>"
  let ?E = "example_env (always (Status 201)) (letter_links ''ab'')"
  have neg: "max_retries ?a < 0"
    by (simp add: example_args_def)
  have run: "cmd_sync ?E ?a fresh_world =
     (Inr (Done 0 2),
      \<lparr>trace = [Item \<lparr>link_id = ''a'', link_url = ''ua'', link_title = ''ta''\<rparr> False,
                Item \<lparr>link_id = ''b'', link_url = ''ub'', link_title = ''tb''\<rparr> False,
                Save {}],
       state_file = Json_ids {}, app_running = True\<rparr>)"
    by (simp add: cmd_sync_def sync_links_def load_config_def ensure_goodlinks_running_def
        is_goodlinks_running_def get_goodlinks_def load_synced_ids_def to_sync_def
        save_synced_ids_def add_to_instapaper_def
        example_env_def example_args_def fresh_world_def letter_links_def osa_output_def
        strip_def is_space_def parse_line_def Let_def)
  from negative_max_retries_never_posts [OF neg, of "always (Status 201)" "''ua''" "''ta''"
      "''me''" "''secret''" fresh_world ?E fresh_world "Inr (Done 0 2)"
      "snd (cmd_sync ?E ?a fresh_world)"] neg run
  show ?thesis
    by (simp add: example_args_def)
qed

subsection \<open>The orchestrator\<close>

text \<open>
  Claim C8. A dry run makes no post, reports no item, writes the state file not once
  and leaves its content as it was, whatever the source returns and whatever the state
  file holds.
\<close>

theorem dry_run_changes_nothing:
  assumes "dry_run a" and "cmd_sync E a w = (r, w')"
  shows "posts (new_events w w') = [] \<and> items (new_events w w') = [] \<and>
         saves (new_events w w') = [] \<and> state_file w' = state_file w"
  using assms(2)
proof (cases rule: cmd_sync_cases)
  case skipped
  from skipped(1,3) show ?thesis by auto
next
  case (ran c L S pre evl rl w1 wl)
  from ran(4) assms(1) show ?thesis by simp
qed

theorem dry_run_changes_nothing_witness:
  "dry_run (example_args\<lparr>dry_run := True\<rparr>) \<and>
   cmd_sync (example_env (always (Status 201)) (letter_links ''ab''))
       (example_args\<lparr>dry_run := True\<rparr>) fresh_world =
     (Inr (Would_sync [''ta'', ''tb'']), fresh_world) \<and>
   posts (new_events fresh_world fresh_world) = [] \<and>
   state_file fresh_world = Absent"
proof -
  let ?a = "example_args\<lparr>dry_run := True\<rparr>"
  let ?E = "example_env (always (Status 201)) (letter_links ''ab'')"
  have dry: "dry_run ?a"
    by simp
  have run: "cmd_sync ?E ?a fresh_world = (Inr (Would_sync [''ta'', ''tb'']), fresh_world)"
    by (simp add: cmd_sync_def sync_links_def load_config_def ensure_goodlinks_running_def
        is_goodlinks_running_def get_goodlinks_def load_synced_ids_def to_sync_def
        example_env_def example_args_def fresh_world_def letter_links_def osa_output_def
        strip_def is_space_def parse_line_def Let_def)
  from dry_run_changes_nothing [OF dry run] dry run show ?thesis
    by (simp add: fresh_world_def)
qed

text \<open>
  Claim C6. With \<open>L\<close> the links fetched and \<open>S\<close> the set loaded, the pending list
  is the sublist of \<open>L\<close> of the links whose id is not in \<open>S\<close>, in the order of
  \<open>L\<close>; as a set it is the same for every ordering of \<open>L\<close>. The items a run works
  through are a prefix of the pending list, the whole of it when the run reaches its
  end, and every id reported ok is the id of a member of \<open>L\<close>.
\<close>

theorem pending_is_source_minus_synced:
  assumes "cmd_sync E a w = (r, w')"
    and "get_goodlinks (osa E) = Inr L" and "load_synced_ids w = Inr S"
  shows "to_sync L S = filter (\<lambda>l. link_id l \<notin> S) L \<and>
         subseq (to_sync L S) L \<and>
         set (to_sync L S) = {l \<in> set L. link_id l \<notin> S} \<and>
         (\<forall>L'. set L' = set L \<longrightarrow> set (to_sync L' S) = set (to_sync L S)) \<and>
         prefix (map fst (items (new_events w w'))) (to_sync L S) \<and>
         (\<forall>n f. r = Inr (Done n f) \<longrightarrow> map fst (items (new_events w w')) = to_sync L S) \<and>
         ok_ids (items (new_events w w')) \<subseteq> link_id ` set L"
proof -
  have okset: "ok_ids rs \<subseteq> link_id ` set (map fst rs)" for rs
    by (auto simp: ok_ids_def)
  have run: "prefix (map fst (items (new_events w w'))) (to_sync L S) \<and>
         (\<forall>n f. r = Inr (Done n f) \<longrightarrow> map fst (items (new_events w w')) = to_sync L S)"
    using assms(1)
  proof (cases rule: cmd_sync_cases)
    case skipped
    from skipped(1,4) show ?thesis by auto
  next
    case (ran c L' S' pre evl rl w1 wl)
    from ran(2,3) assms(2,3) have eq: "L' = L" "S' = S" by simp_all
    have pf: "map fst (items evl) = take (length (items evl)) (to_sync L S)"
      using ran(10) unfolding eq loop_result_def by simp
    show ?thesis
    proof (cases rl)
      case (Inl e)
      with ran(11) have "items (new_events w w') = items evl" "r = Inl e"
        using ran_items(1) [OF ran(6)] by simp_all
      with pf show ?thesis
        by (simp add: take_is_prefix)
    next
      case (Inr st)
      with ran(11) have "items (new_events w w') = items evl"
        using ran_items(2) [OF ran(6)] by simp
      moreover have "length (items evl) = length (to_sync L S)"
        using ran(10) unfolding eq loop_result_def Inr by simp
      ultimately show ?thesis
        using pf by simp
    qed
  qed
  then have "prefix (map fst (items (new_events w w'))) (to_sync L S)"
    by simp
  then have "set (map fst (items (new_events w w'))) \<subseteq> set (to_sync L S)"
    by (rule set_mono_prefix)
  also have "\<dots> \<subseteq> set L"
    by (simp add: to_sync_def)
  finally have "link_id ` set (map fst (items (new_events w w'))) \<subseteq> link_id ` set L"
    by (rule image_mono)
  with okset [of "items (new_events w w')"]
  have ok: "ok_ids (items (new_events w w')) \<subseteq> link_id ` set L"
    by (rule subset_trans)
  have a: "to_sync L S = filter (\<lambda>l. link_id l \<notin> S) L"
    by (simp add: to_sync_def)
  have b: "subseq (to_sync L S) L"
    by (simp add: to_sync_def)
  have c: "set (to_sync L S) = {l \<in> set L. link_id l \<notin> S}"
    by (simp add: to_sync_def)
  have d: "\<forall>L'. set L' = set L \<longrightarrow> set (to_sync L' S) = set (to_sync L S)"
    by (simp add: to_sync_def)
  show ?thesis
    using a b c d run ok by blast
qed

theorem pending_is_source_minus_synced_witness:
  "cmd_sync (example_env (always (Status 201)) (letter_links ''abc'')) example_args
     (fresh_world\<lparr>state_file := Json_ids {''b''}\<rparr>) =
     (Inr (Done 2 0),
      \<lparr>trace =
         [Post \<lparr>req_username = ''me'', req_password = ''secret'', req_url = ''ua'', req_title = ''ta''\<rparr> (Status 201),
          Item \<lparr>link_id = ''a'', link_url = ''ua'', link_title = ''ta''\<rparr> True,
          Post \<lparr>req_username = ''me'', req_password = ''secret'', req_url = ''uc'', req_title = ''tc''\<rparr> (Status 201),
          Item \<lparr>link_id = ''c'', link_url = ''uc'', link_title = ''tc''\<rparr> True,
          Save {''c'', ''a'', ''b''}],
       state_file = Json_ids {''c'', ''a'', ''b''}, app_running = True\<rparr>) \<and>
   get_goodlinks (osa (example_env (always (Status 201)) (letter_links ''abc''))) =
     Inr (letter_links ''abc'') \<and>
   load_synced_ids (fresh_world\<lparr>state_file := Json_ids {''b''}\<rparr>) = Inr {''b''} \<and>
   to_sync (letter_links ''abc'') {''b''} =
     [\<lparr>link_id = ''a'', link_url = ''ua'', link_title = ''ta''\<rparr>,
      \<lparr>link_id = ''c'', link_url = ''uc'', link_title = ''tc''\<rparr>] \<and>
   subseq (to_sync (letter_links ''abc'') {''b''}) (letter_links ''abc'')"
proof -
  let ?E = "example_env (always (Status 201)) (letter_links ''abc'')"
  let ?w = "fresh_world\<lparr>state_file := Json_ids {''b''}\<rparr>"
  let ?w' = "\<lparr>trace =
         [Post \<lparr>req_username = ''me'', req_password = ''secret'', req_url = ''ua'', req_title = ''ta''\<rparr> (Status 201),
          Item \<lparr>link_id = ''a'', link_url = ''ua'', link_title = ''ta''\<rparr> True,
          Post \<lparr>req_username = ''me'', req_password = ''secret'', req_url = ''uc'', req_title = ''tc''\<rparr> (Status 201),
          Item \<lparr>link_id = ''c'', link_url = ''uc'', link_title = ''tc''\<rparr> True,
          Save {''c'', ''a'', ''b''}],
       state_file = Json_ids {''c'', ''a'', ''b''}, app_running = True\<rparr>"
  have src: "get_goodlinks (osa ?E) = Inr (letter_links ''abc'')"
    by (simp add: run_defs example_defs)
  have ld: "load_synced_ids ?w = Inr {''b''}"
    by (simp add: run_defs example_defs)
  have run: "cmd_sync ?E example_args ?w = (Inr (Done 2 0), ?w')"
    by (simp add: run_defs example_defs)
  from pending_is_source_minus_synced [OF run src ld] run src ld show ?thesis
    by (simp add: letter_links_def)
qed







text \<open>
  Claim C3, as stated, has at most one publish call for an id in a run. Neither
  \<^verbatim>\<open>get_goodlinks\<close> nor \<^verbatim>\<open>cmd_sync\<close> compares the ids of two fetched records:
  a source that returns two records with the id \<open>a\<close> gets two posts, one per record,
  and two items reported ok.
\<close>

theorem two_records_one_id_two_posts:
  "cmd_sync (example_env (always (Status 201))
       [\<lparr>link_id = ''a'', link_url = ''u1'', link_title = ''t1''\<rparr>,
        \<lparr>link_id = ''a'', link_url = ''u2'', link_title = ''t2''\<rparr>]) example_args fresh_world =
     (Inr (Done 2 0),
      \<lparr>trace =
         [Post \<lparr>req_username = ''me'', req_password = ''secret'', req_url = ''u1'', req_title = ''t1''\<rparr> (Status 201),
          Item \<lparr>link_id = ''a'', link_url = ''u1'', link_title = ''t1''\<rparr> True,
          Post \<lparr>req_username = ''me'', req_password = ''secret'', req_url = ''u2'', req_title = ''t2''\<rparr> (Status 201),
          Item \<lparr>link_id = ''a'', link_url = ''u2'', link_title = ''t2''\<rparr> True,
          Save {''a''}],
       state_file = Json_ids {''a''}, app_running = True\<rparr>)"
  by (simp add: run_defs example_defs)

text \<open>
  Claim C3, amended. Records with the same id are not merged. In a run that reaches
  its end every fetched record whose id is not in the loaded set is processed, in the
  order fetched, so an id not in the loaded set is processed as often as records of
  the source carry it; every post is the request of such a record, and with
  \<^verbatim>\<open>max_retries\<close> of zero or more each of these records is posted at least once.
\<close>

theorem every_pending_record_is_published:
  assumes "cmd_sync E a w = (Inr (Done n f), w')"
    and "config_file E = Some c"
    and "get_goodlinks (osa E) = Inr L" and "load_synced_ids w = Inr S"
  shows "let ev = new_events w w'; its = items ev in
         map fst its = to_sync L S \<and> n + f = length (to_sync L S) \<and>
         (\<forall>x. x \<notin> S \<longrightarrow>
            length [p \<leftarrow> its. link_id (fst p) = x] = length [l \<leftarrow> L. link_id l = x]) \<and>
         fst ` set (posts ev) \<subseteq> request_for c ` set (to_sync L S) \<and>
         (0 \<le> max_retries a \<longrightarrow>
            request_for c ` set (to_sync L S) \<subseteq> fst ` set (posts ev) \<and>
            length (to_sync L S) \<le> length (posts ev))"
proof -
  let ?ev = "new_events w w'"
  let ?its = "items ?ev"
  note d = run_done [OF assms(1,3,4)]
  have nf: "n + f = length (to_sync L S)"
    using sum_length_filter_compl [of snd ?its] d(2,3) d(1) [symmetric] by simp
  have cnt: "length [p \<leftarrow> ?its. link_id (fst p) = x] = length [l \<leftarrow> L. link_id l = x]"
    if "x \<notin> S" for x
  proof -
    have "length [p \<leftarrow> ?its. link_id (fst p) = x] = length [l \<leftarrow> map fst ?its. link_id l = x]"
      by (simp add: filter_map comp_def)
    also have "\<dots> = length [l \<leftarrow> L. link_id l \<notin> S \<and> link_id l = x]"
      unfolding d(1) to_sync_def by simp
    also have "[l \<leftarrow> L. link_id l \<notin> S \<and> link_id l = x] = [l \<leftarrow> L. link_id l = x]"
      using that by (intro filter_cong) auto
    finally show ?thesis .
  qed
  have po: "fst ` set (posts ?ev) \<subseteq> request_for c ` set (to_sync L S)"
    using assms by (rule run_posts)
  have cover: "request_for c ` set (to_sync L S) \<subseteq> fst ` set (posts ?ev) \<and>
      length (to_sync L S) \<le> length (posts ?ev)" if "0 \<le> max_retries a"
  proof -
    have "request_for c ` fst ` set ?its \<subseteq> fst ` set (posts ?ev)"
      using assms that by (rule run_posts_items(2))
    moreover have "fst ` set ?its = set (to_sync L S)"
      using d(1) by (metis set_map)
    moreover have "length ?its \<le> length (posts ?ev)"
      using assms that by (rule run_posts_items(3))
    moreover have "length ?its = length (to_sync L S)"
      using d(1) by (metis length_map)
    ultimately show ?thesis by simp
  qed
  show ?thesis
    unfolding Let_def using d(1) nf cnt po cover by blast
qed

theorem every_pending_record_is_published_witness:
  "cmd_sync (example_env (always (Status 201))
       [\<lparr>link_id = ''a'', link_url = ''u1'', link_title = ''t1''\<rparr>,
        \<lparr>link_id = ''a'', link_url = ''u2'', link_title = ''t2''\<rparr>]) example_args fresh_world =
     (Inr (Done 2 0),
      \<lparr>trace =
         [Post \<lparr>req_username = ''me'', req_password = ''secret'', req_url = ''u1'', req_title = ''t1''\<rparr> (Status 201),
          Item \<lparr>link_id = ''a'', link_url = ''u1'', link_title = ''t1''\<rparr> True,
          Post \<lparr>req_username = ''me'', req_password = ''secret'', req_url = ''u2'', req_title = ''t2''\<rparr> (Status 201),
          Item \<lparr>link_id = ''a'', link_url = ''u2'', link_title = ''t2''\<rparr> True,
          Save {''a''}],
       state_file = Json_ids {''a''}, app_running = True\<rparr>) \<and>
   length [l \<leftarrow> [\<lparr>link_id = ''a'', link_url = ''u1'', link_title = ''t1''\<rparr>,
                  \<lparr>link_id = ''a'', link_url = ''u2'', link_title = ''t2''\<rparr>]. link_id l = ''a''] = 2 \<and>
   length [p \<leftarrow> [(\<lparr>link_id = ''a'', link_url = ''u1'', link_title = ''t1''\<rparr>, True),
                  (\<lparr>link_id = ''a'', link_url = ''u2'', link_title = ''t2''\<rparr>, True)].
             link_id (fst p) = ''a''] = 2"
proof -
  let ?L = "[\<lparr>link_id = ''a'', link_url = ''u1'', link_title = ''t1''\<rparr>,
        \<lparr>link_id = ''a'', link_url = ''u2'', link_title = ''t2''\<rparr>]"
  let ?E = "example_env (always (Status 201)) ?L"
  let ?c = "\<lparr>username = ''me'', password = ''secret'', launch_goodlinks_flag = True\<rparr>"
  let ?w' = "\<lparr>trace =
         [Post \<lparr>req_username = ''me'', req_password = ''secret'', req_url = ''u1'', req_title = ''t1''\<rparr> (Status 201),
          Item \<lparr>link_id = ''a'', link_url = ''u1'', link_title = ''t1''\<rparr> True,
          Post \<lparr>req_username = ''me'', req_password = ''secret'', req_url = ''u2'', req_title = ''t2''\<rparr> (Status 201),
          Item \<lparr>link_id = ''a'', link_url = ''u2'', link_title = ''t2''\<rparr> True,
          Save {''a''}],
       state_file = Json_ids {''a''}, app_running = True\<rparr>"
  have run: "cmd_sync ?E example_args fresh_world = (Inr (Done 2 0), ?w')"
    by (simp add: run_defs example_defs)
  have cfg: "config_file ?E = Some ?c"
    by (simp add: example_env_def)
  have src: "get_goodlinks (osa ?E) = Inr ?L"
    by (simp add: run_defs example_defs)
  have ld: "load_synced_ids fresh_world = Inr {}"
    by (simp add: load_synced_ids_def fresh_world_def)
  have its: "items (new_events fresh_world ?w') =
      [(\<lparr>link_id = ''a'', link_url = ''u1'', link_title = ''t1''\<rparr>, True),
       (\<lparr>link_id = ''a'', link_url = ''u2'', link_title = ''t2''\<rparr>, True)]"
    by (simp add: new_events_def fresh_world_def)
  from every_pending_record_is_published [OF run cfg src ld, unfolded Let_def its]
  have "\<forall>x. x \<notin> {} \<longrightarrow>
      length [p \<leftarrow> [(\<lparr>link_id = ''a'', link_url = ''u1'', link_title = ''t1''\<rparr>, True),
                     (\<lparr>link_id = ''a'', link_url = ''u2'', link_title = ''t2''\<rparr>, True)].
                link_id (fst p) = x] = length [l \<leftarrow> ?L. link_id l = x]"
    by blast
  then have "length [p \<leftarrow> [(\<lparr>link_id = ''a'', link_url = ''u1'', link_title = ''t1''\<rparr>, True),
                     (\<lparr>link_id = ''a'', link_url = ''u2'', link_title = ''t2''\<rparr>, True)].
                link_id (fst p) = ''a''] = length [l \<leftarrow> ?L. link_id l = ''a'']"
    by blast
  moreover have "length [l \<leftarrow> ?L. link_id l = ''a''] = 2"
    by simp
  ultimately show ?thesis
    using run by simp
qed




text \<open>
  Claim C9, as stated, keeps the id of every failed item out of the synced set and the
  item pending for the next run. The set is keyed by id alone: when the source returns
  two records with the id \<open>a\<close>, the first fails and the second succeeds, the id is
  saved and the failed record is not pending afterwards.
\<close>

theorem failed_record_with_a_twin_is_marked_synced:
  "cmd_sync (example_env (refusing ''bad'')
       [\<lparr>link_id = ''a'', link_url = ''bad'', link_title = ''t1''\<rparr>,
        \<lparr>link_id = ''a'', link_url = ''u2'', link_title = ''t2''\<rparr>]) example_args fresh_world =
     (Inr (Done 1 1),
      \<lparr>trace =
         [Post \<lparr>req_username = ''me'', req_password = ''secret'', req_url = ''bad'', req_title = ''t1''\<rparr> (Status 400),
          Item \<lparr>link_id = ''a'', link_url = ''bad'', link_title = ''t1''\<rparr> False,
          Post \<lparr>req_username = ''me'', req_password = ''secret'', req_url = ''u2'', req_title = ''t2''\<rparr> (Status 201),
          Item \<lparr>link_id = ''a'', link_url = ''u2'', link_title = ''t2''\<rparr> True,
          Save {''a''}],
       state_file = Json_ids {''a''}, app_running = True\<rparr>) \<and>
   to_sync [\<lparr>link_id = ''a'', link_url = ''bad'', link_title = ''t1''\<rparr>,
            \<lparr>link_id = ''a'', link_url = ''u2'', link_title = ''t2''\<rparr>] {''a''} = []"
  by (simp add: run_defs example_defs)

text \<open>
  Claim C9, amended. With \<open>L\<close> the links fetched and \<open>S\<close> the set loaded, the items
  a run processes are the pending ones in order, all of them when the run reaches its
  end, where the two counters are the numbers of items reported ok and failed: a
  failed item is counted and the next one follows. The only error that ends a run
  once the loop has begun is the authentication error, right after a post answered
  403. The set a run leaves on file contains \<open>S\<close> and beyond it only ids of items
  reported ok, so a failed item whose id no item of the run was reported ok with is
  not on file and is pending again in a run that fetches \<open>L\<close> anew.
\<close>

theorem failed_items_are_counted_and_stay_pending:
  assumes "cmd_sync E a w = (r, w')"
    and "get_goodlinks (osa E) = Inr L" and "load_synced_ids w = Inr S"
  shows "let ev = new_events w w'; its = items ev in
         map fst its = take (length its) (to_sync L S) \<and>
         (\<forall>n f. r = Inr (Done n f) \<longrightarrow>
            map fst its = to_sync L S \<and>
            f = length [x \<leftarrow> its. \<not> snd x] \<and> n = length [x \<leftarrow> its. snd x]) \<and>
         (\<forall>e. r = Inl e \<longrightarrow>
            e = ConfigNotFound \<or> e = LaunchFailed \<or>
            e = AuthenticationFailed \<and> (\<exists>ev0 rq. ev = ev0 @ [Post rq (Status 403)])) \<and>
         (\<forall>S'. load_synced_ids w' = Inr S' \<longrightarrow>
            S \<subseteq> S' \<and> S' \<subseteq> S \<union> ok_ids its \<and>
            (\<forall>l. (l, False) \<in> set its \<and> link_id l \<notin> ok_ids its \<longrightarrow>
               link_id l \<notin> S' \<and> l \<in> set (to_sync L S')))"
proof -
  let ?ev = "new_events w w'"
  let ?its = "items ?ev"
  have pre: "map fst ?its = take (length ?its) (to_sync L S)"
    using assms by (rule run_items_prefix)
  have fin: "map fst ?its = to_sync L S \<and>
      f = length [x \<leftarrow> ?its. \<not> snd x] \<and> n = length [x \<leftarrow> ?its. snd x]"
    if "r = Inr (Done n f)" for n f
    using run_done(1,2,3) [OF assms(1) [unfolded that] assms(2,3)] by simp
  have err: "e = ConfigNotFound \<or> e = LaunchFailed \<or>
      e = AuthenticationFailed \<and> (\<exists>ev0 rq. ?ev = ev0 @ [Post rq (Status 403)])"
    if "r = Inl e" for e
    using run_error [OF assms(1) [unfolded that] assms(2,3)] by blast
  have after: "S \<subseteq> S' \<and> S' \<subseteq> S \<union> ok_ids ?its \<and>
      (\<forall>l. (l, False) \<in> set ?its \<and> link_id l \<notin> ok_ids ?its \<longrightarrow>
         link_id l \<notin> S' \<and> l \<in> set (to_sync L S'))"
    if ld': "load_synced_ids w' = Inr S'" for S'
  proof -
    note g = run_state_grows [OF assms(1,3) ld']
    have still: "link_id l \<notin> S' \<and> l \<in> set (to_sync L S')"
      if l: "(l, False) \<in> set ?its" and nok: "link_id l \<notin> ok_ids ?its" for l
    proof -
      from l have "l \<in> set (map fst ?its)"
        by force
      then have "l \<in> set (to_sync L S)"
        unfolding pre by (rule in_set_takeD)
      then have "l \<in> set L" "link_id l \<notin> S"
        by (simp_all add: to_sync_def)
      with nok g(2) have "link_id l \<notin> S'"
        by auto
      with \<open>l \<in> set L\<close> show ?thesis
        by (simp add: to_sync_def)
    qed
    from g still show ?thesis
      by blast
  qed
  show ?thesis
    unfolding Let_def using pre fin err after by blast
qed

theorem failed_items_are_counted_and_stay_pending_witness:
  "cmd_sync (example_env (refusing ''ub'') (letter_links ''abc'')) example_args fresh_world =
     (Inr (Done 2 1),
      \<lparr>trace =
         [Post \<lparr>req_username = ''me'', req_password = ''secret'', req_url = ''ua'', req_title = ''ta''\<rparr> (Status 201),
          Item \<lparr>link_id = ''a'', link_url = ''ua'', link_title = ''ta''\<rparr> True,
          Post \<lparr>req_username = ''me'', req_password = ''secret'', req_url = ''ub'', req_title = ''tb''\<rparr> (Status 400),
          Item \<lparr>link_id = ''b'', link_url = ''ub'', link_title = ''tb''\<rparr> False,
          Post \<lparr>req_username = ''me'', req_password = ''secret'', req_url = ''uc'', req_title = ''tc''\<rparr> (Status 201),
          Item \<lparr>link_id = ''c'', link_url = ''uc'', link_title = ''tc''\<rparr> True,
          Save {''c'', ''a''}],
       state_file = Json_ids {''c'', ''a''}, app_running = True\<rparr>) \<and>
   get_goodlinks (osa (example_env (refusing ''ub'') (letter_links ''abc''))) =
     Inr (letter_links ''abc'') \<and>
   load_synced_ids fresh_world = Inr {} \<and>
   ''b'' \<notin> {''c'', ''a''} \<and>
   \<lparr>link_id = ''b'', link_url = ''ub'', link_title = ''tb''\<rparr>
     \<in> set (to_sync (letter_links ''abc'') {''c'', ''a''})"
proof -
  let ?E = "example_env (refusing ''ub'') (letter_links ''abc'')"
  let ?b = "\<lparr>link_id = ''b'', link_url = ''ub'', link_title = ''tb''\<rparr>"
  let ?w' = "\<lparr>trace =
         [Post \<lparr>req_username = ''me'', req_password = ''secret'', req_url = ''ua'', req_title = ''ta''\<rparr> (Status 201),
          Item \<lparr>link_id = ''a'', link_url = ''ua'', link_title = ''ta''\<rparr> True,
          Post \<lparr>req_username = ''me'', req_password = ''secret'', req_url = ''ub'', req_title = ''tb''\<rparr> (Status 400),
          Item ?b False,
          Post \<lparr>req_username = ''me'', req_password = ''secret'', req_url = ''uc'', req_title = ''tc''\<rparr> (Status 201),
          Item \<lparr>link_id = ''c'', link_url = ''uc'', link_title = ''tc''\<rparr> True,
          Save {''c'', ''a''}],
       state_file = Json_ids {''c'', ''a''}, app_running = True\<rparr>"
  have run: "cmd_sync ?E example_args fresh_world = (Inr (Done 2 1), ?w')"
    by (simp add: run_defs example_defs)
  have src: "get_goodlinks (osa ?E) = Inr (letter_links ''abc'')"
    by (simp add: run_defs example_defs)
  have ld: "load_synced_ids fresh_world = Inr {}"
    by (simp add: load_synced_ids_def fresh_world_def)
  have ld': "load_synced_ids ?w' = Inr {''c'', ''a''}"
    by (simp add: load_synced_ids_def)
  have its: "items (new_events fresh_world ?w') =
      [(\<lparr>link_id = ''a'', link_url = ''ua'', link_title = ''ta''\<rparr>, True), (?b, False),
       (\<lparr>link_id = ''c'', link_url = ''uc'', link_title = ''tc''\<rparr>, True)]"
    by (simp add: new_events_def fresh_world_def)
  have failed: "(?b, False) \<in> set (items (new_events fresh_world ?w'))"
    unfolding its by simp
  have nok: "link_id ?b \<notin> ok_ids (items (new_events fresh_world ?w'))"
    unfolding its by simp
  from failed_items_are_counted_and_stay_pending [OF run src ld, unfolded Let_def] ld' failed nok
  have "link_id ?b \<notin> {''c'', ''a''} \<and> ?b \<in> set (to_sync (letter_links ''abc'') {''c'', ''a''})"
    by blast
  with run src ld show ?thesis
    by simp
qed

end
